theory Spec2Isabelle
  imports Main "HOL-Library.Multiset" "HOL-Library.Product_Lexorder" "HOL-Library.List_Lexorder"
begin

section \<open>Strings, errors and the letter table\<close>

text \<open>
  A Python string is a sequence of Unicode code points.  The game's alphabet is the Greek
  capitals, which do not fit an 8-bit character, so a character is its code point and a
  string is a list of code points.  Every element of a hand is a one-character string
  (hands are only filled from the bag, see \<open>getletters\<close>), so a hand is a list of
  code points too, and joining a permutation of a hand is the permutation itself.
\<close>

type_synonym uchar = nat
type_synonym ustring = "uchar list"

datatype error = KeyError uchar | ValueError | IndexError

abbreviation (input) Gr_ALPHA :: uchar where "Gr_ALPHA \<equiv> 913"
abbreviation (input) Gr_BETA :: uchar where "Gr_BETA \<equiv> 914"
abbreviation (input) Gr_GAMMA :: uchar where "Gr_GAMMA \<equiv> 915"
abbreviation (input) Gr_DELTA :: uchar where "Gr_DELTA \<equiv> 916"
abbreviation (input) Gr_EPSILON :: uchar where "Gr_EPSILON \<equiv> 917"
abbreviation (input) Gr_ZETA :: uchar where "Gr_ZETA \<equiv> 918"
abbreviation (input) Gr_ETA :: uchar where "Gr_ETA \<equiv> 919"
abbreviation (input) Gr_THETA :: uchar where "Gr_THETA \<equiv> 920"
abbreviation (input) Gr_IOTA :: uchar where "Gr_IOTA \<equiv> 921"
abbreviation (input) Gr_KAPPA :: uchar where "Gr_KAPPA \<equiv> 922"
abbreviation (input) Gr_LAMBDA :: uchar where "Gr_LAMBDA \<equiv> 923"
abbreviation (input) Gr_MU :: uchar where "Gr_MU \<equiv> 924"
abbreviation (input) Gr_NU :: uchar where "Gr_NU \<equiv> 925"
abbreviation (input) Gr_XI :: uchar where "Gr_XI \<equiv> 926"
abbreviation (input) Gr_OMICRON :: uchar where "Gr_OMICRON \<equiv> 927"
abbreviation (input) Gr_PI :: uchar where "Gr_PI \<equiv> 928"
abbreviation (input) Gr_RHO :: uchar where "Gr_RHO \<equiv> 929"
abbreviation (input) Gr_SIGMA :: uchar where "Gr_SIGMA \<equiv> 931"
abbreviation (input) Gr_TAU :: uchar where "Gr_TAU \<equiv> 932"
abbreviation (input) Gr_UPSILON :: uchar where "Gr_UPSILON \<equiv> 933"
abbreviation (input) Gr_PHI :: uchar where "Gr_PHI \<equiv> 934"
abbreviation (input) Gr_CHI :: uchar where "Gr_CHI \<equiv> 935"
abbreviation (input) Gr_PSI :: uchar where "Gr_PSI \<equiv> 936"
abbreviation (input) Gr_OMEGA :: uchar where "Gr_OMEGA \<equiv> 937"

text \<open>The tokens of the turn loop, in Latin capitals: \<open>"Q"\<close>, \<open>"P"\<close> and \<open>"PASS"\<close>.\<close>

definition QUIT :: ustring where "QUIT = [81]"
definition CHANGE :: ustring where "CHANGE = [80]"
definition PASS :: ustring where "PASS = [80, 65, 83, 83]"

text \<open>
  \<open>SakClass.letters\<close>: letter \<open>\<mapsto>\<close> (supply count, point value), in the dictionary's
  insertion order (the order in which \<open>randomize_sak\<close> expands it).
\<close>

definition letters_items :: "(uchar \<times> nat \<times> int) list" where
  "letters_items =
    [(Gr_ALPHA, (12, 1)), (Gr_BETA, (1, 8)), (Gr_GAMMA, (2, 4)),
     (Gr_DELTA, (2, 4)), (Gr_EPSILON, (8, 1)), (Gr_ZETA, (1, 10)),
     (Gr_ETA, (7, 1)), (Gr_THETA, (1, 10)), (Gr_IOTA, (8, 1)),
     (Gr_KAPPA, (4, 2)), (Gr_LAMBDA, (3, 3)), (Gr_MU, (3, 3)),
     (Gr_NU, (6, 1)), (Gr_XI, (1, 10)), (Gr_OMICRON, (9, 1)),
     (Gr_PI, (4, 2)), (Gr_RHO, (5, 2)), (Gr_SIGMA, (7, 1)),
     (Gr_TAU, (8, 1)), (Gr_UPSILON, (4, 2)), (Gr_PHI, (1, 8)),
     (Gr_CHI, (1, 8)), (Gr_PSI, (1, 10)), (Gr_OMEGA, (3, 3))]"

definition letters :: "uchar \<rightharpoonup> nat \<times> int" where
  "letters = map_of letters_items"

section \<open>The bag\<close>

text \<open>
  \<open>random.shuffle\<close> is the Fisher-Yates loop of the standard library:
  for \<open>i\<close> from \<open>len - 1\<close> down to \<open>1\<close>, draw \<open>j\<close> below \<open>i + 1\<close> and exchange
  \<open>x[i]\<close> and \<open>x[j]\<close>.  The random source is an explicit argument: \<open>rnd i\<close> is the
  number drawn at position \<open>i\<close>, reduced below \<open>i + 1\<close>.
\<close>

fun shuffle_loop :: "(nat \<Rightarrow> nat) \<Rightarrow> nat \<Rightarrow> 'a list \<Rightarrow> 'a list" where
  "shuffle_loop rnd 0 x = x"
| "shuffle_loop rnd (Suc i) x =
     (let j = rnd (Suc i) mod (Suc i + 1)
      in shuffle_loop rnd i (x[Suc i := x ! j, j := x ! Suc i]))"

definition shuffle :: "(nat \<Rightarrow> nat) \<Rightarrow> 'a list \<Rightarrow> 'a list" where
  "shuffle rnd x = shuffle_loop rnd (length x - 1) x"

text \<open>\<open>randomize_sak\<close>: every letter \<open>count\<close> times, in table order, then shuffled.\<close>

definition randomize_sak :: "(nat \<Rightarrow> nat) \<Rightarrow> ustring" where
  "randomize_sak rnd =
     shuffle rnd (concat (map (\<lambda>(letter, (cnt, _)). replicate cnt letter) letters_items))"

text \<open>\<open>list.pop()\<close> takes the last element and raises on the empty list.\<close>

definition pop :: "'a list \<Rightarrow> error + ('a \<times> 'a list)" where
  "pop xs = (if xs = [] then Inl IndexError else Inr (last xs, butlast xs))"

text \<open>
  The loop of \<open>getletters\<close>: \<open>k\<close> more rounds of \<open>hand.append(self.sak.pop())\<close>.
\<close>

fun getletters_loop :: "nat \<Rightarrow> 'a list \<Rightarrow> 'a list \<Rightarrow> error + ('a list \<times> 'a list)" where
  "getletters_loop 0 hand sak = Inr (hand, sak)"
| "getletters_loop (Suc k) hand sak =
     (case pop sak of
        Inl e \<Rightarrow> Inl e
      | Inr (l, sak') \<Rightarrow> getletters_loop k (hand @ [l]) sak')"

text \<open>
  \<open>getletters(n)\<close> returns the hand and the bag that is left.  \<open>n\<close> is a Python integer;
  \<open>range\<close> of a negative number is empty.
\<close>

definition getletters :: "int \<Rightarrow> 'a list \<Rightarrow> error + ('a list \<times> 'a list)" where
  "getletters n sak = getletters_loop (nat (min n (int (length sak)))) [] sak"

definition putbackletters :: "(nat \<Rightarrow> nat) \<Rightarrow> 'a list \<Rightarrow> 'a list \<Rightarrow> 'a list" where
  "putbackletters rnd ls sak = shuffle rnd (sak @ ls)"

section \<open>The word search of the computer player\<close>

text \<open>
  \<open>itertools.permutations(hand, r)\<close>: the arrangements of \<open>r\<close> positions of the hand,
  without repeating a position, in lexicographic order of the positions.  A letter that
  sits at two positions yields the same string twice.  \<open>picks xs\<close> lists, position by
  position, the element taken first and the elements left, in their order.
\<close>

fun picks :: "'a list \<Rightarrow> ('a \<times> 'a list) list" where
  "picks [] = []"
| "picks (x # xs) = (x, xs) # map (\<lambda>(y, ys). (y, x # ys)) (picks xs)"

fun permutations :: "'a list \<Rightarrow> nat \<Rightarrow> 'a list list" where
  "permutations xs 0 = [[]]"
| "permutations xs (Suc r) =
     concat (map (\<lambda>(y, ys). map ((#) y) (permutations ys r)) (picks xs))"

text \<open>\<open>sum(SakClass().letters[l][1] for l in w)\<close>: the first letter missing from the
  table raises \<open>KeyError\<close>.  (The \<open>SakClass\<close> built for each lookup fills and shuffles
  a bag of its own, which is dropped at once; only its table is read.)\<close>

fun word_score :: "ustring \<Rightarrow> error + int" where
  "word_score [] = Inr 0"
| "word_score (l # w) =
     (case letters l of
        None \<Rightarrow> Inl (KeyError l)
      | Some (cnt, v) \<Rightarrow>
          (case word_score w of Inl e \<Rightarrow> Inl e | Inr s \<Rightarrow> Inr (v + s)))"

datatype strategy = St_MIN | St_MAX | St_SMART | St_FAIL | St_LEARN | St_TEACH

record player =
  hand :: ustring
  score :: int

text \<open>A \<open>Computer\<close> is a \<open>Player\<close> with a strategy and its learned words.\<close>

record computer = player +
  strategy :: strategy
  learned_words :: "ustring set"

text \<open>
  The first loop of \<open>min_max_smart\<close>, over the arities still to visit, with the list
  \<open>words\<close> collected so far: \<open>Some w\<close> is the early \<open>return words[0]\<close>, \<open>None\<close>
  is the loop running to its end.
\<close>

fun min_max_loop ::
  "strategy \<Rightarrow> ustring \<Rightarrow> ustring set \<Rightarrow> nat list \<Rightarrow> ustring list \<Rightarrow> ustring option" where
  "min_max_loop st h wordset [] words = None"
| "min_max_loop st h wordset (i # arities) words =
     (let words' = words @ filter (\<lambda>w. w \<in> wordset) (permutations h i)
      in if (st = St_MIN \<or> st = St_MAX) \<and> words' \<noteq> [] then Some (hd words')
         else min_max_loop st h wordset arities words')"

text \<open>
  The exhaustive best-score loops (the same code in \<open>min_max_smart\<close> and in
  \<open>smart_teach\<close>): the inner loop over the permutations of one arity, and the outer loop
  over the arities, threading \<open>(best_word, best_score)\<close>.
\<close>

fun best_perms ::
  "ustring set \<Rightarrow> ustring list \<Rightarrow> ustring \<times> int \<Rightarrow> error + (ustring \<times> int)" where
  "best_perms wordset [] best = Inr best"
| "best_perms wordset (w # perms) (best_word, best_score) =
     (if w \<in> wordset then
        (case word_score w of
           Inl e \<Rightarrow> Inl e
         | Inr s \<Rightarrow>
             if s > best_score then best_perms wordset perms (w, s)
             else best_perms wordset perms (best_word, best_score))
      else best_perms wordset perms (best_word, best_score))"

fun best_arities ::
  "ustring \<Rightarrow> ustring set \<Rightarrow> nat list \<Rightarrow> ustring \<times> int \<Rightarrow> error + (ustring \<times> int)" where
  "best_arities h wordset [] best = Inr best"
| "best_arities h wordset (i # arities) best =
     (case best_perms wordset (permutations h i) best of
        Inl e \<Rightarrow> Inl e
      | Inr best' \<Rightarrow> best_arities h wordset arities best')"

definition best_search :: "ustring \<Rightarrow> ustring set \<Rightarrow> error + ustring" where
  "best_search h wordset =
     (case best_arities h wordset [2..<length h + 1] ([], 0) of
        Inl e \<Rightarrow> Inl e
      | Inr (best_word, best_score) \<Rightarrow> Inr (if best_word \<noteq> [] then best_word else PASS))"

definition min_max_smart :: "('a computer_scheme) \<Rightarrow> ustring set \<Rightarrow> error + ustring" where
  "min_max_smart c wordset =
     (case min_max_loop (strategy c) (hand c) wordset
             (if strategy c = St_MIN then [2..<length (hand c) + 1]
              else rev [2..<length (hand c) + 1]) [] of
        Some w \<Rightarrow> Inr w
      | None \<Rightarrow>
          if strategy c = St_SMART then best_search (hand c) wordset
          else Inr PASS)"

text \<open>
  \<open>fail_strategy\<close>: the loops collecting \<open>(score, w)\<close>, then
  \<open>words_scores.sort(reverse=True)\<close>.  Tuples compare by score and then by word,
  strings by code point; elements that compare equal are equal, so the descending sort is
  the reversed ascending sort.
\<close>

fun fail_perms ::
  "ustring set \<Rightarrow> ustring list \<Rightarrow> (int \<times> ustring) list \<Rightarrow> error + (int \<times> ustring) list" where
  "fail_perms wordset [] words_scores = Inr words_scores"
| "fail_perms wordset (w # perms) words_scores =
     (if w \<in> wordset then
        (case word_score w of
           Inl e \<Rightarrow> Inl e
         | Inr s \<Rightarrow> fail_perms wordset perms (words_scores @ [(s, w)]))
      else fail_perms wordset perms words_scores)"

fun fail_arities ::
  "ustring \<Rightarrow> ustring set \<Rightarrow> nat list \<Rightarrow> (int \<times> ustring) list \<Rightarrow> error + (int \<times> ustring) list" where
  "fail_arities h wordset [] words_scores = Inr words_scores"
| "fail_arities h wordset (i # arities) words_scores =
     (case fail_perms wordset (permutations h i) words_scores of
        Inl e \<Rightarrow> Inl e
      | Inr words_scores' \<Rightarrow> fail_arities h wordset arities words_scores')"

definition fail_strategy :: "('a computer_scheme) \<Rightarrow> ustring set \<Rightarrow> error + ustring" where
  "fail_strategy c wordset =
     (case fail_arities (hand c) wordset [2..<length (hand c) + 1] [] of
        Inl e \<Rightarrow> Inl e
      | Inr words_scores \<Rightarrow>
          (let sorted_ws = rev (sort words_scores)
           in if sorted_ws = [] then Inr PASS
              else Inr (if length sorted_ws > 1 then snd (sorted_ws ! 1)
                        else snd (sorted_ws ! 0))))"

definition smart_learn :: "('a computer_scheme) \<Rightarrow> ustring set \<Rightarrow> error + ustring" where
  "smart_learn c wordset = min_max_smart c wordset"

definition smart_teach :: "('a computer_scheme) \<Rightarrow> ustring set \<Rightarrow> error + ustring" where
  "smart_teach c wordset = best_search (hand c) wordset"

text \<open>\<open>Computer.play\<close>.  The strategy is one of the six tags that \<open>Game.settings\<close>
  can select, so the final \<open>else\<close> of the dispatch has no case here.\<close>

definition play :: "('a computer_scheme) \<Rightarrow> ustring set \<Rightarrow> error + ustring" where
  "play c wordset =
     (let all_words = wordset \<union> learned_words c
      in if strategy c = St_MIN \<or> strategy c = St_MAX \<or> strategy c = St_SMART
           then min_max_smart c all_words
         else if strategy c = St_FAIL then fail_strategy c all_words
         else if strategy c = St_LEARN then smart_learn c all_words
         else smart_teach c all_words)"

section \<open>The game\<close>

datatype who = Human | Computer

text \<open>What \<open>Game.run\<close> prints, one constructor for each \<open>print\<close> of the loop.\<close>

datatype event =
    Status who ustring int
  | QuitMsg who
  | LettersChanged
  | Played who ustring int
  | Passed who
  | BestWord ustring
  | InvalidWord
  | NoMoreLetters

text \<open>
  A \<open>Game\<close>: the bag, the dictionary, the two players (\<open>players[0]\<close> is the human,
  \<open>players[1]\<close> the computer), the configured strategy, the local variable \<open>turn\<close>
  of \<open>run\<close>, and what has been printed so far.
\<close>

record game =
  sak :: ustring
  wordset :: "ustring set"
  human :: player
  comp :: "unit computer_scheme"
  game_strategy :: strategy
  turn :: nat
  printed :: "event list"

text \<open>\<open>Game.__init__\<close>; the empty list of players is two players without letters.\<close>

definition new_game :: "(nat \<Rightarrow> nat) \<Rightarrow> ustring set \<Rightarrow> game" where
  "new_game rnd ws =
     \<lparr>sak = randomize_sak rnd, wordset = ws,
      human = \<lparr>hand = [], score = 0\<rparr>,
      comp = \<lparr>hand = [], score = 0, strategy = St_SMART, learned_words = {}\<rparr>,
      game_strategy = St_SMART, turn = 0, printed = []\<rparr>"

definition settings :: "strategy \<Rightarrow> game \<Rightarrow> game" where
  "settings st g = g\<lparr>game_strategy := st\<rparr>"

definition game_setup :: "game \<Rightarrow> error + game" where
  "game_setup g =
     (case getletters 7 (sak g) of
        Inl e \<Rightarrow> Inl e
      | Inr (h1, sak1) \<Rightarrow>
          (case getletters 7 sak1 of
             Inl e \<Rightarrow> Inl e
           | Inr (h2, sak2) \<Rightarrow>
               Inr (g\<lparr>sak := sak2,
                      human := \<lparr>hand = h1, score = 0\<rparr>,
                      comp := \<lparr>hand = h2, score = 0, strategy = game_strategy g,
                               learned_words = {}\<rparr>\<rparr>)))"

text \<open>\<open>list.remove(l)\<close> deletes the first occurrence and raises when there is none.\<close>

definition list_remove :: "'a \<Rightarrow> 'a list \<Rightarrow> error + 'a list" where
  "list_remove l xs = (if l \<in> set xs then Inr (remove1 l xs) else Inl ValueError)"

fun remove_letters :: "ustring \<Rightarrow> ustring \<Rightarrow> error + ustring" where
  "remove_letters [] h = Inr h"
| "remove_letters (l # word) h =
     (case list_remove l h of Inl e \<Rightarrow> Inl e | Inr h' \<Rightarrow> remove_letters word h')"

definition active_hand :: "who \<Rightarrow> game \<Rightarrow> ustring" where
  "active_hand p g = (case p of Human \<Rightarrow> hand (human g) | Computer \<Rightarrow> hand (comp g))"

definition active_score :: "who \<Rightarrow> game \<Rightarrow> int" where
  "active_score p g = (case p of Human \<Rightarrow> score (human g) | Computer \<Rightarrow> score (comp g))"

definition set_hand :: "who \<Rightarrow> ustring \<Rightarrow> game \<Rightarrow> game" where
  "set_hand p h g =
     (case p of Human \<Rightarrow> g\<lparr>human := (human g)\<lparr>hand := h\<rparr>\<rparr>
              | Computer \<Rightarrow> g\<lparr>comp := (comp g)\<lparr>hand := h\<rparr>\<rparr>)"

definition add_score :: "who \<Rightarrow> int \<Rightarrow> game \<Rightarrow> game" where
  "add_score p s g =
     (case p of Human \<Rightarrow> g\<lparr>human := (human g)\<lparr>score := score (human g) + s\<rparr>\<rparr>
              | Computer \<Rightarrow> g\<lparr>comp := (comp g)\<lparr>score := score (comp g) + s\<rparr>\<rparr>)"

definition print :: "event \<Rightarrow> game \<Rightarrow> game" where
  "print ev g = g\<lparr>printed := printed g @ [ev]\<rparr>"

text \<open>The branch \<open>word == "P"\<close>: the hand goes back into the bag, seven letters are drawn.\<close>

definition change_letters :: "who \<Rightarrow> (nat \<Rightarrow> nat) \<Rightarrow> game \<Rightarrow> error + game" where
  "change_letters p rnd g =
     (case getletters 7 (putbackletters rnd (active_hand p g) (sak g)) of
        Inl e \<Rightarrow> Inl e
      | Inr (h, sak') \<Rightarrow> Inr (print LettersChanged (set_hand p h (g\<lparr>sak := sak'\<rparr>))))"

text \<open>The branch of a dictionary word that the hand can form.\<close>

definition play_word :: "who \<Rightarrow> ustring \<Rightarrow> game \<Rightarrow> error + game" where
  "play_word p word g =
     (case word_score word of
        Inl e \<Rightarrow> Inl e
      | Inr s \<Rightarrow>
          (case remove_letters word (active_hand p g) of
             Inl e \<Rightarrow> Inl e
           | Inr h \<Rightarrow>
               (case getletters (7 - int (length h)) (sak g) of
                  Inl e \<Rightarrow> Inl e
                | Inr (drawn, sak') \<Rightarrow>
                    Inr (print (Played p word s)
                          (set_hand p (h @ drawn) (add_score p s (g\<lparr>sak := sak'\<rparr>)))))))"

text \<open>The branch of the human's turn under the strategy \<open>TEACH\<close>.\<close>

definition teach_advice :: "ustring \<Rightarrow> game \<Rightarrow> error + game" where
  "teach_advice word g =
     (case smart_teach (comp g) (wordset g) of
        Inl e \<Rightarrow> Inl e
      | Inr best_word \<Rightarrow>
          Inr (if word \<in> wordset g then print (BestWord best_word) g else g))"

text \<open>
  The chain of branches of \<open>Game.run\<close> below \<open>word == "Q"\<close>, for the player \<open>p\<close>
  whose turn it is and the word it submitted.
\<close>

definition apply_move :: "who \<Rightarrow> ustring \<Rightarrow> (nat \<Rightarrow> nat) \<Rightarrow> game \<Rightarrow> error + game" where
  "apply_move p word rnd g =
     (if word = CHANGE then change_letters p rnd g
      else if word \<in> wordset g \<and>
              list_all (\<lambda>l. count_list word l \<le> count_list (active_hand p g) l) word
        then play_word p word g
      else if word = PASS then Inr (print (Passed p) g)
      else if p = Human \<and> game_strategy g = St_TEACH then teach_advice word g
      else Inr (print InvalidWord g))"

datatype loop = Break game | Continue game

text \<open>
  One round of the \<open>while True\<close> of \<open>Game.run\<close>.  \<open>typed\<close> is what \<open>Human.play\<close>
  returns, the line entered at the prompt, stripped and in upper case (read only on the
  human's turn); \<open>rnd\<close> is the random source of this round.
\<close>

definition run_turn :: "ustring \<Rightarrow> (nat \<Rightarrow> nat) \<Rightarrow> game \<Rightarrow> error + loop" where
  "run_turn typed rnd g0 =
     (let p = (if turn g0 mod 2 = 0 then Human else Computer);
          g = print (Status p (active_hand p g0) (active_score p g0)) g0
      in case (case p of Human \<Rightarrow> Inr typed | Computer \<Rightarrow> play (comp g) (wordset g)) of
           Inl e \<Rightarrow> Inl e
         | Inr word \<Rightarrow>
             if word = QUIT then Inr (Break (print (QuitMsg p) g))
             else
               (case apply_move p word rnd g of
                  Inl e \<Rightarrow> Inl e
                | Inr g' \<Rightarrow>
                    if sak g' = [] then Inr (Break (print NoMoreLetters g'))
                    else Inr (Continue (g'\<lparr>turn := turn g' + 1\<rparr>))))"

text \<open>\<open>turn = 0\<close> at the head of \<open>run\<close>.\<close>

definition run_init :: "game \<Rightarrow> game" where
  "run_init g = g\<lparr>turn := 0\<rparr>"

text \<open>
  The states at the head of the loop of \<open>run\<close> in the first match of a game: option 3 of
  the main menu on a new \<open>Game\<close>, after any choice of strategy.
\<close>

inductive first_match :: "game \<Rightarrow> bool" where
  first_setup:
    "game_setup (settings st (new_game rnd ws)) = Inr g \<Longrightarrow> first_match (run_init g)"
| first_turn:
    "first_match g \<Longrightarrow> run_turn typed rnd g = Inr (Continue g') \<Longrightarrow> first_match g'"

text \<open>
  The states at the head of the loop in any match: the main menu allows another
  round of \<open>Game.setup\<close> and \<open>Game.run\<close> on the same \<open>Game\<close> once a match has ended.
\<close>

inductive reachable :: "game \<Rightarrow> bool" where
  reach_setup:
    "game_setup (settings st (new_game rnd ws)) = Inr g \<Longrightarrow> reachable (run_init g)"
| reach_turn:
    "reachable g \<Longrightarrow> run_turn typed rnd g = Inr (Continue g') \<Longrightarrow> reachable g'"
| reach_again:
    "reachable g \<Longrightarrow> run_turn typed rnd g = Inr (Break g') \<Longrightarrow>
     game_setup (settings st g') = Inr g'' \<Longrightarrow> reachable (run_init g'')"

text \<open>The game a round of the loop leaves behind.\<close>

fun after_turn :: "loop \<Rightarrow> game" where
  "after_turn (Break g) = g"
| "after_turn (Continue g) = g"

definition total_letters :: "game \<Rightarrow> nat" where
  "total_letters g = length (sak g) + length (hand (human g)) + length (hand (comp g))"

text \<open>The letters laid down so far, read off the lines printed for played words.\<close>

fun played_letters :: "event list \<Rightarrow> nat" where
  "played_letters [] = 0"
| "played_letters (Played p word s # evs) = length word + played_letters evs"
| "played_letters (ev # evs) = played_letters evs"

text \<open>The words announced as \<open>the best word would have been\<close>.\<close>

fun advised :: "event list \<Rightarrow> ustring list" where
  "advised [] = []"
| "advised (BestWord w # evs) = w # advised evs"
| "advised (ev # evs) = advised evs"

section \<open>Notions used in the statements\<close>

text \<open>
  The candidate strings of a hand in the order of enumeration (arities 2 up to the size of
  the hand, the permutations of each arity in turn), and the acceptable ones among them.
\<close>

definition candidates :: "'a list \<Rightarrow> 'a list list" where
  "candidates h = concat (map (permutations h) [2..<length h + 1])"

definition acceptable :: "ustring \<Rightarrow> ustring set \<Rightarrow> ustring list" where
  "acceptable h ws = filter (\<lambda>w. w \<in> ws) (candidates h)"

text \<open>The score of a word whose letters are all in the table.\<close>

definition points :: "ustring \<Rightarrow> int" where
  "points w = (case word_score w of Inr s \<Rightarrow> s | Inl e \<Rightarrow> 0)"

text \<open>The player whose turn it is.\<close>

definition active :: "game \<Rightarrow> who" where
  "active g = (if turn g mod 2 = 0 then Human else Computer)"

text \<open>Every letter of the game, in the bag or in a hand, is a key of the letter table.\<close>

definition table_letters :: "game \<Rightarrow> bool" where
  "table_letters g \<longleftrightarrow>
     set (sak g) \<subseteq> dom letters \<and> set (hand (human g)) \<subseteq> dom letters \<and>
     set (hand (comp g)) \<subseteq> dom letters"

section \<open>Example words and states\<close>

text \<open>Three Greek words: alpha-lambda-phi-alpha, phi-alpha and psi-upsilon-chi-omega.\<close>

definition ALFA :: ustring where
  "ALFA = [Gr_ALPHA, Gr_LAMBDA, Gr_PHI, Gr_ALPHA]"

definition FA :: ustring where
  "FA = [Gr_PHI, Gr_ALPHA]"

definition PSYCHO :: ustring where
  "PSYCHO = [Gr_PSI, Gr_UPSILON, Gr_CHI, Gr_OMEGA]"

text \<open>Random draws under which the shuffle exchanges every position with itself.\<close>

definition no_swap :: "nat \<Rightarrow> nat" where
  "no_swap i = i"

text \<open>
  The state at the head of the first round when the bag was filled in table order and
  left so by the shuffle: the human holds the last seven letters of the table order, the
  computer the seven before them.
\<close>

definition first_round :: "strategy \<Rightarrow> ustring set \<Rightarrow> game" where
  "first_round st ws =
     \<lparr>sak = take 88 (concat (map (\<lambda>(letter, (cnt, _)). replicate cnt letter) letters_items)),
      wordset = ws,
      human = \<lparr>hand = [Gr_OMEGA, Gr_OMEGA, Gr_OMEGA, Gr_PSI, Gr_CHI, Gr_PHI, Gr_UPSILON],
               score = 0\<rparr>,
      comp = \<lparr>hand = [Gr_UPSILON, Gr_UPSILON, Gr_UPSILON, Gr_TAU, Gr_TAU, Gr_TAU, Gr_TAU],
              score = 0, strategy = st, learned_words = {}\<rparr>,
      game_strategy = st, turn = 0, printed = []\<rparr>"

section \<open>Properties of the bag\<close>

lemma shuffle_loop_mset: "i < length x \<or> i = 0 \<Longrightarrow> mset (shuffle_loop rnd i x) = mset x"
proof (induction i arbitrary: x)
  case 0
  show ?case by simp
next
  case (Suc i)
  let ?j = "rnd (Suc i) mod (Suc i + 1)"
  let ?y = "x[Suc i := x ! ?j, ?j := x ! Suc i]"
  from Suc.prems have lt: "Suc i < length x" by simp
  have j: "?j < length x" using lt by (metis Suc_eq_plus1 less_Suc_eq_le less_le_trans mod_less_divisor not_le zero_less_Suc less_imp_le_nat)
  have "mset ?y = mset x" using lt j by (simp add: mset_swap)
  moreover have "mset (shuffle_loop rnd i ?y) = mset ?y"
    by (rule Suc.IH) (use lt in simp)
  ultimately show ?case by (simp add: Let_def)
qed

lemma shuffle_mset [simp]: "mset (shuffle rnd x) = mset x"
  unfolding shuffle_def by (rule shuffle_loop_mset) (cases x, auto)

lemma shuffle_length [simp]: "length (shuffle rnd x) = length x"
  using shuffle_mset [of rnd x] by (metis size_mset)

lemma shuffle_set [simp]: "set (shuffle rnd x) = set x"
  using shuffle_mset [of rnd x] by (metis set_mset_mset)

lemma getletters_loop_eq:
  "k \<le> length bag \<Longrightarrow>
   getletters_loop k acc bag = Inr (acc @ rev (drop (length bag - k) bag), take (length bag - k) bag)"
proof (induction k arbitrary: acc bag)
  case 0
  show ?case by simp
next
  case (Suc k)
  then have ne: "bag \<noteq> []" by auto
  then obtain ys y where bag: "bag = ys @ [y]" by (meson rev_exhaust)
  have k: "k \<le> length ys" using Suc.prems bag by simp
  have "getletters_loop (Suc k) acc bag = getletters_loop k (acc @ [y]) ys"
    by (simp add: pop_def bag)
  also have "\<dots> = Inr ((acc @ [y]) @ rev (drop (length ys - k) ys), take (length ys - k) ys)"
    by (rule Suc.IH [OF k])
  finally show ?case using k by (simp add: bag)
qed

lemma getletters_eq:
  "getletters n bag =
     Inr (rev (drop (length bag - nat n) bag), take (length bag - nat n) bag)"
proof -
  let ?k = "nat (min n (int (length bag)))"
  have k: "?k \<le> length bag" by simp
  have "length bag - ?k = length bag - nat n" by (simp add: min_def)
  then show ?thesis
    unfolding getletters_def using getletters_loop_eq [OF k, of "[]"] by simp
qed

lemma putbackletters_mset [simp]:
  "mset (putbackletters rnd ls bag) = mset bag + mset ls"
  by (simp add: putbackletters_def)

lemma putbackletters_length [simp]:
  "length (putbackletters rnd ls bag) = length bag + length ls"
  by (simp add: putbackletters_def)

lemma putbackletters_set [simp]:
  "set (putbackletters rnd ls bag) = set bag \<union> set ls"
  by (simp add: putbackletters_def)

lemma mset_take_drop: "mset (take k xs) + mset (drop k xs) = mset xs"
  by (metis append_take_drop_id mset_append)

text \<open>
  Claim C7.  Drawing \<open>n\<close> letters with \<open>getletters\<close> and handing the drawn letters to
  \<open>putbackletters\<close> gives a bag with the multiset of letters (and so the number of
  letters) it had before the draw, for every bag, every \<open>n\<close> and every outcome of the
  shuffle; only the order may differ.
\<close>

theorem getletters_putbackletters_roundtrip:
  "\<exists>h bag'. getletters n bag = Inr (h, bag') \<and>
      mset (putbackletters rnd h bag') = mset bag \<and>
      length (putbackletters rnd h bag') = length bag"
proof -
  let ?k = "length bag - nat n"
  have m: "mset (putbackletters rnd (rev (drop ?k bag)) (take ?k bag)) = mset bag"
    by (simp add: mset_take_drop)
  from m have "length (putbackletters rnd (rev (drop ?k bag)) (take ?k bag)) = length bag"
    by (metis size_mset)
  with m show ?thesis using getletters_eq [of n bag] by blast
qed

text \<open>
  Claim C8.  For every bag and every requested count \<open>n \<ge> 0\<close>, \<open>getletters n\<close> raises
  no error, returns exactly \<open>min n (length bag)\<close> letters, and takes exactly these letters
  off the end of the bag (the last letter of the bag comes first in the hand); with fewer
  than \<open>n\<close> letters in the bag it returns all of them.
\<close>

theorem getletters_returns_min:
  assumes "0 \<le> n"
  shows "\<exists>h bag'. getletters n bag = Inr (h, bag') \<and>
           int (length h) = min n (int (length bag)) \<and>
           bag = bag' @ rev h \<and>
           (int (length bag) < n \<longrightarrow> h = rev bag \<and> bag' = [])"
proof -
  let ?k = "length bag - nat n"
  have "int (length (rev (drop ?k bag))) = min n (int (length bag))"
    using assms by (simp add: min_def)
  moreover have "bag = take ?k bag @ rev (rev (drop ?k bag))" by simp
  moreover have "int (length bag) < n \<longrightarrow> rev (drop ?k bag) = rev bag \<and> take ?k bag = []"
    by auto
  ultimately show ?thesis using getletters_eq [of n bag] by blast
qed

theorem getletters_returns_min_witness:
  "(0::int) \<le> 7 \<and>
   (\<exists>h bag'. getletters 7 [Gr_ALPHA, Gr_BETA, Gr_GAMMA] = Inr (h, bag') \<and>
      int (length h) = min 7 (int (length [Gr_ALPHA, Gr_BETA, Gr_GAMMA])) \<and>
      [Gr_ALPHA, Gr_BETA, Gr_GAMMA] = bag' @ rev h \<and>
      (int (length [Gr_ALPHA, Gr_BETA, Gr_GAMMA]) < 7 \<longrightarrow>
         h = rev [Gr_ALPHA, Gr_BETA, Gr_GAMMA] \<and> bag' = []))"
proof -
  have h: "(0::int) \<le> 7" by simp
  show ?thesis using h getletters_returns_min [OF h, of "[Gr_ALPHA, Gr_BETA, Gr_GAMMA]"] by blast
qed

section \<open>Properties of the enumeration\<close>

lemma picks_mset: "(y, ys) \<in> set (picks xs) \<Longrightarrow> mset xs = add_mset y (mset ys)"
proof (induction xs arbitrary: y ys)
  case Nil
  then show ?case by simp
next
  case (Cons x xs)
  from Cons.prems consider "y = x \<and> ys = xs"
    | zs where "(y, zs) \<in> set (picks xs)" "ys = x # zs"
    by auto
  then show ?case
  proof cases
    case 1
    then show ?thesis by simp
  next
    case 2
    then show ?thesis using Cons.IH [of y zs] by simp
  qed
qed

lemma picks_fst: "map fst (picks xs) = xs"
proof (induction xs)
  case Nil
  show ?case by simp
next
  case (Cons x xs)
  have "map fst (map (\<lambda>(y, ys). (y, x # ys)) (picks xs)) = map fst (picks xs)"
    by (simp add: case_prod_unfold o_def)
  then show ?case using Cons.IH by simp
qed

lemma picks_set: "(y, ys) \<in> set (picks xs) \<Longrightarrow> set ys \<subseteq> set xs"
proof -
  assume "(y, ys) \<in> set (picks xs)"
  then have "mset xs = mset (y # ys)" using picks_mset by fastforce
  then have "set xs = set (y # ys)" by (rule mset_eq_setD)
  then show ?thesis by auto
qed

lemma picks_distinct: "(y, ys) \<in> set (picks xs) \<Longrightarrow> distinct xs \<Longrightarrow> distinct ys"
proof (induction xs arbitrary: y ys)
  case Nil
  then show ?case by simp
next
  case (Cons x xs)
  from Cons.prems(1) consider "y = x \<and> ys = xs"
    | zs where "(y, zs) \<in> set (picks xs)" "ys = x # zs"
    by auto
  then show ?case
  proof cases
    case 1
    then show ?thesis using Cons.prems(2) by simp
  next
    case 2
    have "distinct zs" using Cons.IH [OF 2(1)] Cons.prems(2) by simp
    moreover have "x \<notin> set zs" using picks_set [OF 2(1)] Cons.prems(2) by auto
    ultimately show ?thesis using 2(2) by simp
  qed
qed

lemma permutations_length: "p \<in> set (permutations xs r) \<Longrightarrow> length p = r"
  by (induction r arbitrary: xs p) auto

lemma permutations_mset: "p \<in> set (permutations xs r) \<Longrightarrow> mset p \<subseteq># mset xs"
proof (induction r arbitrary: xs p)
  case 0
  then show ?case by simp
next
  case (Suc r)
  then obtain y ys q where pk: "(y, ys) \<in> set (picks xs)"
    and q: "q \<in> set (permutations ys r)" and p: "p = y # q"
    by auto
  have "mset q \<subseteq># mset ys" using Suc.IH [OF q] .
  then show ?case using picks_mset [OF pk] p by simp
qed

lemma permutations_set: "p \<in> set (permutations xs r) \<Longrightarrow> set p \<subseteq> set xs"
  using permutations_mset [of p xs r] by (metis set_mset_mono set_mset_mset)

lemma distinct_blocks:
  "distinct (map fst ps) \<Longrightarrow> (\<And>y ys. (y, ys) \<in> set ps \<Longrightarrow> distinct (f ys)) \<Longrightarrow>
   distinct (concat (map (\<lambda>(y, ys). map ((#) y) (f ys)) ps))"
proof (induction ps)
  case Nil
  then show ?case by simp
next
  case (Cons a ps)
  obtain y ys where a: "a = (y, ys)" by (cases a)
  have d: "distinct (map ((#) y) (f ys))"
    using Cons.prems(2) [of y ys] a by (simp add: distinct_map inj_on_def)
  have rest: "distinct (concat (map (\<lambda>(y, ys). map ((#) y) (f ys)) ps))"
    using Cons.IH Cons.prems by auto
  have y: "y \<notin> fst ` set ps" using Cons.prems(1) a by simp
  have "set (map ((#) y) (f ys)) \<inter>
      set (concat (map (\<lambda>(y, ys). map ((#) y) (f ys)) ps)) = {}"
  proof (rule ccontr)
    assume "\<not> ?thesis"
    then obtain w where w1: "w \<in> set (map ((#) y) (f ys))"
      and w2: "w \<in> set (concat (map (\<lambda>(y, ys). map ((#) y) (f ys)) ps))"
      by blast
    from w1 have "hd w = y" by auto
    moreover from w2 obtain z zs where "(z, zs) \<in> set ps" "w \<in> set (map ((#) z) (f zs))"
      by auto
    then have "hd w = z" "z \<in> fst ` set ps" by force+
    ultimately show False using y by simp
  qed
  with d rest show ?case using a by simp
qed

lemma permutations_distinct: "distinct xs \<Longrightarrow> distinct (permutations xs r)"
proof (induction r arbitrary: xs)
  case 0
  then show ?case by simp
next
  case (Suc r)
  have "distinct (map fst (picks xs))" using Suc.prems by (simp add: picks_fst)
  moreover have "\<And>y ys. (y, ys) \<in> set (picks xs) \<Longrightarrow> distinct (permutations ys r)"
    by (rule Suc.IH) (rule picks_distinct [OF _ Suc.prems])
  ultimately have "distinct (concat (map (\<lambda>(y, ys). map ((#) y) (permutations ys r)) (picks xs)))"
    by (rule distinct_blocks)
  then show ?case by simp
qed

lemma candidates_iff:
  "w \<in> set (candidates h) \<longleftrightarrow> (\<exists>i. 2 \<le> i \<and> i \<le> length h \<and> w \<in> set (permutations h i))"
proof -
  have "set [2..<length h + 1] = {i. 2 \<le> i \<and> i \<le> length h}" by auto
  then have "set (candidates h) = (\<Union>i\<in>{i. 2 \<le> i \<and> i \<le> length h}. set (permutations h i))"
    unfolding candidates_def set_concat set_map by simp
  then show ?thesis by simp
qed

lemma candidates_length:
  assumes "w \<in> set (candidates h)"
  shows "2 \<le> length w \<and> length w \<le> length h"
proof -
  from assms obtain i where "2 \<le> i" "i \<le> length h" "w \<in> set (permutations h i)"
    unfolding candidates_iff by blast
  then show ?thesis using permutations_length [of w h i] by simp
qed

lemma candidates_set:
  assumes "w \<in> set (candidates h)"
  shows "set w \<subseteq> set h"
proof -
  from assms obtain i where "w \<in> set (permutations h i)"
    unfolding candidates_iff by blast
  then show ?thesis by (rule permutations_set)
qed

lemma candidates_arity:
  assumes "w \<in> set (candidates h)"
  shows "w \<in> set (permutations h (length w))"
proof -
  from assms obtain i where "w \<in> set (permutations h i)"
    unfolding candidates_iff by blast
  then show ?thesis using permutations_length [of w h i] by simp
qed

lemma distinct_concat_lengths:
  "distinct is \<Longrightarrow> (\<And>i. i \<in> set is \<Longrightarrow> distinct (f i)) \<Longrightarrow>
   (\<And>i w. i \<in> set is \<Longrightarrow> w \<in> set (f i) \<Longrightarrow> length w = i) \<Longrightarrow>
   distinct (concat (map f is))"
proof (induction "is")
  case Nil
  then show ?case by simp
next
  case (Cons i "is")
  have "set (f i) \<inter> set (concat (map f is)) = {}"
  proof (rule ccontr)
    assume "set (f i) \<inter> set (concat (map f is)) \<noteq> {}"
    then obtain w j where "w \<in> set (f i)" "j \<in> set is" "w \<in> set (f j)" by auto
    then have "i = j" using Cons.prems(3) [of i w] Cons.prems(3) [of j w] by simp
    then show False using Cons.prems(1) \<open>j \<in> set is\<close> by simp
  qed
  moreover have "distinct (concat (map f is))"
    using Cons.IH Cons.prems by auto
  ultimately show ?case using Cons.prems(2) [of i] by simp
qed

lemma candidates_distinct: "distinct h \<Longrightarrow> distinct (candidates h)"
  unfolding candidates_def
proof (rule distinct_concat_lengths)
  show "distinct [2..<length h + 1]" by simp
  show "\<And>i. distinct h \<Longrightarrow> distinct (permutations h i)" by (rule permutations_distinct)
  show "\<And>i w. w \<in> set (permutations h i) \<Longrightarrow> length w = i" by (rule permutations_length)
qed

section \<open>Properties of the scores\<close>

lemma dom_letters:
  "dom letters = {Gr_ALPHA, Gr_BETA, Gr_GAMMA, Gr_DELTA, Gr_EPSILON, Gr_ZETA, Gr_ETA, Gr_THETA,
     Gr_IOTA, Gr_KAPPA, Gr_LAMBDA, Gr_MU, Gr_NU, Gr_XI, Gr_OMICRON, Gr_PI, Gr_RHO, Gr_SIGMA,
     Gr_TAU, Gr_UPSILON, Gr_PHI, Gr_CHI, Gr_PSI, Gr_OMEGA}"
  unfolding letters_def letters_items_def by (simp add: dom_map_of_conv_image_fst)

lemma letters_value_pos: "letters l = Some (c, v) \<Longrightarrow> 1 \<le> v"
  unfolding letters_def letters_items_def by (simp split: if_splits)

lemma word_score_total:
  "set w \<subseteq> dom letters \<Longrightarrow> \<exists>s. word_score w = Inr s \<and> int (length w) \<le> s"
proof (induction w)
  case Nil
  show ?case by simp
next
  case (Cons l w)
  then obtain s where s: "word_score w = Inr s" "int (length w) \<le> s" by auto
  from Cons.prems obtain c v where lv: "letters l = Some (c, v)" by auto
  then have "1 \<le> v" by (rule letters_value_pos)
  then show ?case using s lv by simp
qed

lemma word_score_points: "set w \<subseteq> dom letters \<Longrightarrow> word_score w = Inr (points w)"
  using word_score_total [of w] by (auto simp: points_def)

lemma points_length: "set w \<subseteq> dom letters \<Longrightarrow> int (length w) \<le> points w"
  using word_score_total [of w] by (auto simp: points_def)

lemma PASS_not_letters: "set w \<subseteq> dom letters \<Longrightarrow> w \<noteq> PASS"
  unfolding dom_letters PASS_def by auto

lemma candidates_not_PASS: "set h \<subseteq> dom letters \<Longrightarrow> PASS \<notin> set (candidates h)"
  using candidates_set [of PASS h] PASS_not_letters [of PASS] by blast

section \<open>Properties of the search loops\<close>

lemma min_max_loop_other:
  "st \<noteq> St_MIN \<Longrightarrow> st \<noteq> St_MAX \<Longrightarrow> min_max_loop st h ws arities words = None"
  by (induction arities arbitrary: words) (simp_all add: Let_def)

lemma min_max_loop_find:
  assumes "st = St_MIN \<or> st = St_MAX"
  shows "min_max_loop st h ws arities [] =
     map_option (\<lambda>i. hd (filter (\<lambda>w. w \<in> ws) (permutations h i)))
       (find (\<lambda>i. filter (\<lambda>w. w \<in> ws) (permutations h i) \<noteq> []) arities)"
  using assms by (induction arities) (auto simp: Let_def)

lemma find_sorted_wrt:
  "sorted_wrt R xs \<Longrightarrow> find P xs = Some x \<Longrightarrow> y \<in> set xs \<Longrightarrow> P y \<Longrightarrow> y = x \<or> R x y"
  by (induction xs) (auto split: if_splits)

lemma find_Some_set: "find P xs = Some x \<Longrightarrow> x \<in> set xs \<and> P x"
  by (induction xs) (auto split: if_splits)

lemma find_None_set: "find P xs = None \<longleftrightarrow> (\<forall>x\<in>set xs. \<not> P x)"
  by (induction xs) auto

lemma best_perms_append:
  "best_perms ws (xs @ ys) b =
     (case best_perms ws xs b of Inl e \<Rightarrow> Inl e | Inr b' \<Rightarrow> best_perms ws ys b')"
proof (induction xs arbitrary: b)
  case Nil
  show ?case by simp
next
  case (Cons x xs)
  obtain bw bs where b: "b = (bw, bs)" by (cases b)
  show ?case unfolding b by (simp add: Cons.IH split: sum.splits)
qed

lemma best_arities_concat:
  "best_arities h ws arities b = best_perms ws (concat (map (permutations h) arities)) b"
  by (induction arities arbitrary: b) (simp_all add: best_perms_append split: sum.splits)

lemma best_perms_spec:
  assumes "\<forall>v\<in>set perms. v \<in> ws \<longrightarrow> set v \<subseteq> dom letters"
  shows "\<exists>w s. best_perms ws perms (bw, bs) = Inr (w, s) \<and>
     ((w, s) = (bw, bs) \<and> (\<forall>v\<in>set (filter (\<lambda>v. v \<in> ws) perms). points v \<le> bs)
      \<or> (\<exists>pre post. filter (\<lambda>v. v \<in> ws) perms = pre @ w # post \<and> s = points w \<and> bs < s \<and>
            (\<forall>v\<in>set pre. points v < s) \<and> (\<forall>v\<in>set post. points v \<le> s)))"
  using assms
proof (induction perms arbitrary: bw bs)
  case Nil
  show ?case by simp
next
  case (Cons x perms)
  have rest: "\<forall>v\<in>set perms. v \<in> ws \<longrightarrow> set v \<subseteq> dom letters" using Cons.prems by simp
  show ?case
  proof (cases "x \<in> ws")
    case False
    then show ?thesis using Cons.IH [OF rest, of bw bs] by simp
  next
    case True
    then have sc: "word_score x = Inr (points x)"
      using Cons.prems by (simp add: word_score_points)
    show ?thesis
    proof (cases "points x > bs")
      case gt: True
      from Cons.IH [OF rest, of x "points x"] obtain w s where
        r: "best_perms ws perms (x, points x) = Inr (w, s)" and
        d: "(w, s) = (x, points x) \<and> (\<forall>v\<in>set (filter (\<lambda>v. v \<in> ws) perms). points v \<le> points x)
          \<or> (\<exists>pre post. filter (\<lambda>v. v \<in> ws) perms = pre @ w # post \<and> s = points w \<and>
                points x < s \<and> (\<forall>v\<in>set pre. points v < s) \<and> (\<forall>v\<in>set post. points v \<le> s))"
        by blast
      have run: "best_perms ws (x # perms) (bw, bs) = Inr (w, s)"
        using True sc gt r by simp
      from d show ?thesis
      proof
        assume a: "(w, s) = (x, points x) \<and>
          (\<forall>v\<in>set (filter (\<lambda>v. v \<in> ws) perms). points v \<le> points x)"
        then have "filter (\<lambda>v. v \<in> ws) (x # perms) = [] @ w # filter (\<lambda>v. v \<in> ws) perms"
          using True by simp
        moreover have "s = points w" "bs < s" using a gt by auto
        moreover have "\<forall>v\<in>set (filter (\<lambda>v. v \<in> ws) perms). points v \<le> s" using a by auto
        ultimately show ?thesis using run by (metis empty_iff list.set(1))
      next
        assume "\<exists>pre post. filter (\<lambda>v. v \<in> ws) perms = pre @ w # post \<and> s = points w \<and>
                points x < s \<and> (\<forall>v\<in>set pre. points v < s) \<and> (\<forall>v\<in>set post. points v \<le> s)"
        then obtain pre post where f: "filter (\<lambda>v. v \<in> ws) perms = pre @ w # post"
          and p: "s = points w" "points x < s" "\<forall>v\<in>set pre. points v < s"
            "\<forall>v\<in>set post. points v \<le> s"
          by blast
        have "filter (\<lambda>v. v \<in> ws) (x # perms) = (x # pre) @ w # post"
          using True f by simp
        moreover have "\<forall>v\<in>set (x # pre). points v < s" using p by simp
        moreover have "bs < s" using gt p by simp
        ultimately show ?thesis using run p by blast
      qed
    next
      case le: False
      from Cons.IH [OF rest, of bw bs] obtain w s where
        r: "best_perms ws perms (bw, bs) = Inr (w, s)" and
        d: "(w, s) = (bw, bs) \<and> (\<forall>v\<in>set (filter (\<lambda>v. v \<in> ws) perms). points v \<le> bs)
          \<or> (\<exists>pre post. filter (\<lambda>v. v \<in> ws) perms = pre @ w # post \<and> s = points w \<and>
                bs < s \<and> (\<forall>v\<in>set pre. points v < s) \<and> (\<forall>v\<in>set post. points v \<le> s))"
        by blast
      have run: "best_perms ws (x # perms) (bw, bs) = Inr (w, s)"
        using True sc le r by simp
      from d show ?thesis
      proof
        assume "(w, s) = (bw, bs) \<and> (\<forall>v\<in>set (filter (\<lambda>v. v \<in> ws) perms). points v \<le> bs)"
        then show ?thesis using run True le by auto
      next
        assume "\<exists>pre post. filter (\<lambda>v. v \<in> ws) perms = pre @ w # post \<and> s = points w \<and>
                bs < s \<and> (\<forall>v\<in>set pre. points v < s) \<and> (\<forall>v\<in>set post. points v \<le> s)"
        then obtain pre post where f: "filter (\<lambda>v. v \<in> ws) perms = pre @ w # post"
          and p: "s = points w" "bs < s" "\<forall>v\<in>set pre. points v < s"
            "\<forall>v\<in>set post. points v \<le> s"
          by blast
        have "filter (\<lambda>v. v \<in> ws) (x # perms) = (x # pre) @ w # post"
          using True f by simp
        moreover have "\<forall>v\<in>set (x # pre). points v < s" using p le by simp
        ultimately show ?thesis using run p by blast
      qed
    qed
  qed
qed

lemma fail_perms_eq:
  assumes "\<forall>v\<in>set perms. v \<in> ws \<longrightarrow> set v \<subseteq> dom letters"
  shows "fail_perms ws perms acc =
     Inr (acc @ map (\<lambda>w. (points w, w)) (filter (\<lambda>w. w \<in> ws) perms))"
  using assms by (induction perms arbitrary: acc) (simp_all add: word_score_points)

lemma fail_perms_append:
  "fail_perms ws (xs @ ys) acc =
     (case fail_perms ws xs acc of Inl e \<Rightarrow> Inl e | Inr acc' \<Rightarrow> fail_perms ws ys acc')"
  by (induction xs arbitrary: acc) (simp_all split: sum.splits)

lemma fail_arities_concat:
  "fail_arities h ws arities acc = fail_perms ws (concat (map (permutations h) arities)) acc"
  by (induction arities arbitrary: acc) (simp_all add: fail_perms_append split: sum.splits)

section \<open>Properties of the strategies\<close>

lemma permutations_numeral:
  "permutations xs (numeral k) =
     concat (map (\<lambda>(y, ys). map ((#) y) (permutations ys (pred_numeral k))) (picks xs))"
  by (simp add: numeral_eq_Suc)

lemma set_acceptable: "w \<in> set (acceptable h ws) \<longleftrightarrow> w \<in> ws \<and> w \<in> set (candidates h)"
  unfolding acceptable_def by auto

lemma acceptable_Nil_iff:
  "acceptable h ws = [] \<longleftrightarrow>
     (\<forall>i. 2 \<le> i \<and> i \<le> length h \<longrightarrow> (\<forall>w\<in>set (permutations h i). w \<notin> ws))"
proof -
  have "acceptable h ws = [] \<longleftrightarrow> (\<forall>w\<in>set (candidates h). w \<notin> ws)"
    unfolding acceptable_def by (simp add: filter_empty_conv)
  also have "\<dots> \<longleftrightarrow> (\<forall>i. 2 \<le> i \<and> i \<le> length h \<longrightarrow> (\<forall>w\<in>set (permutations h i). w \<notin> ws))"
    using candidates_iff [of _ h] by blast
  finally show ?thesis .
qed

lemma acceptable_letters:
  "set h \<subseteq> dom letters \<Longrightarrow> w \<in> set (acceptable h ws) \<Longrightarrow> set w \<subseteq> dom letters"
  using candidates_set [of w h] by (auto simp: set_acceptable)

lemma best_search_spec:
  assumes h: "set h \<subseteq> dom letters"
  shows "(acceptable h ws = [] \<longrightarrow> best_search h ws = Inr PASS) \<and>
     (acceptable h ws \<noteq> [] \<longrightarrow>
        (\<exists>pre w post. best_search h ws = Inr w \<and> acceptable h ws = pre @ w # post \<and>
           (\<forall>v\<in>set pre. points v < points w) \<and> (\<forall>v\<in>set post. points v \<le> points w)))"
proof -
  have ok: "\<forall>v\<in>set (candidates h). v \<in> ws \<longrightarrow> set v \<subseteq> dom letters"
    using h candidates_set by blast
  have run: "best_arities h ws [2..<length h + 1] ([], 0) = best_perms ws (candidates h) ([], 0)"
    by (simp only: best_arities_concat candidates_def)
  from best_perms_spec [OF ok, of "[]" 0] obtain w s where
    r: "best_perms ws (candidates h) ([], 0) = Inr (w, s)" and
    d: "(w, s) = ([], 0) \<and> (\<forall>v\<in>set (acceptable h ws). points v \<le> 0)
      \<or> (\<exists>pre post. acceptable h ws = pre @ w # post \<and> s = points w \<and> 0 < s \<and>
            (\<forall>v\<in>set pre. points v < s) \<and> (\<forall>v\<in>set post. points v \<le> s))"
    unfolding acceptable_def by blast
  have pos: "0 < points v" if "v \<in> set (acceptable h ws)" for v
  proof -
    have "2 \<le> length v" using that candidates_length [of v h] by (simp add: set_acceptable)
    moreover have "int (length v) \<le> points v"
      using acceptable_letters [OF h that] by (rule points_length)
    ultimately show ?thesis by simp
  qed
  from d show ?thesis
  proof
    assume a: "(w, s) = ([], 0) \<and> (\<forall>v\<in>set (acceptable h ws). points v \<le> 0)"
    have "acceptable h ws = []"
    proof (cases "acceptable h ws")
      case Nil
      then show ?thesis .
    next
      case (Cons v vs)
      then have "v \<in> set (acceptable h ws)" by simp
      then show ?thesis using pos [of v] a by fastforce
    qed
    moreover have "best_search h ws = Inr PASS"
      unfolding best_search_def run r using a by simp
    ultimately show ?thesis by simp
  next
    assume "\<exists>pre post. acceptable h ws = pre @ w # post \<and> s = points w \<and> 0 < s \<and>
            (\<forall>v\<in>set pre. points v < s) \<and> (\<forall>v\<in>set post. points v \<le> s)"
    then obtain pre post where f: "acceptable h ws = pre @ w # post"
      and p: "s = points w" "\<forall>v\<in>set pre. points v < s" "\<forall>v\<in>set post. points v \<le> s"
      by blast
    have "w \<in> set (acceptable h ws)" using f by simp
    then have "2 \<le> length w" using candidates_length [of w h] by (simp add: set_acceptable)
    then have "w \<noteq> []" by auto
    then have "best_search h ws = Inr w"
      unfolding best_search_def run r by simp
    then show ?thesis using f p by auto
  qed
qed

lemma best_search_total: "set h \<subseteq> dom letters \<Longrightarrow> \<exists>w. best_search h ws = Inr w"
  using best_search_spec [of h ws] by (cases "acceptable h ws = []") auto

lemma fail_arities_acceptable:
  assumes h: "set h \<subseteq> dom letters"
  shows "fail_arities h ws [2..<length h + 1] [] =
     Inr (map (\<lambda>w. (points w, w)) (acceptable h ws))"
proof -
  have ok: "\<forall>v\<in>set (candidates h). v \<in> ws \<longrightarrow> set v \<subseteq> dom letters"
    using h candidates_set by blast
  have "fail_arities h ws [2..<length h + 1] [] = fail_perms ws (candidates h) []"
    by (simp only: fail_arities_concat candidates_def)
  then show ?thesis using fail_perms_eq [OF ok, of "[]"] by (simp add: acceptable_def)
qed

lemma fail_strategy_eq:
  assumes "set (hand c) \<subseteq> dom letters"
  shows "fail_strategy c ws =
     (let ps = map (\<lambda>w. (points w, w)) (acceptable (hand c) ws)
      in Inr (if ps = [] then PASS
              else if 1 < length ps then snd (rev (sort ps) ! 1)
              else snd (rev (sort ps) ! 0)))"
proof -
  have "rev (sort ps) = [] \<longleftrightarrow> ps = []" for ps :: "(int \<times> ustring) list"
    by (metis length_0_conv length_sort rev_is_Nil_conv)
  then show ?thesis
    unfolding fail_strategy_def fail_arities_acceptable [OF assms] by (simp add: Let_def)
qed

lemma min_max_smart_other:
  "strategy c \<noteq> St_MIN \<Longrightarrow> strategy c \<noteq> St_MAX \<Longrightarrow>
   min_max_smart c ws = (if strategy c = St_SMART then best_search (hand c) ws else Inr PASS)"
  unfolding min_max_smart_def by (simp add: min_max_loop_other)

lemma play_total: "set (hand c) \<subseteq> dom letters \<Longrightarrow> \<exists>w. play c ws = Inr w"
proof -
  assume h: "set (hand c) \<subseteq> dom letters"
  show ?thesis
  proof (cases "strategy c")
    case St_MIN
    then show ?thesis
      by (simp add: play_def min_max_smart_def Let_def split: option.splits)
  next
    case St_MAX
    then show ?thesis
      by (simp add: play_def min_max_smart_def Let_def split: option.splits)
  next
    case St_SMART
    then show ?thesis
      using best_search_total [OF h] by (simp add: play_def min_max_smart_other)
  next
    case St_FAIL
    then show ?thesis
      by (simp add: play_def fail_strategy_eq [OF h] Let_def)
  next
    case St_LEARN
    then show ?thesis
      by (simp add: play_def smart_learn_def min_max_smart_other)
  next
    case St_TEACH
    then show ?thesis
      using best_search_total [OF h] by (simp add: play_def smart_teach_def)
  qed
qed

lemma eval_hand_letters:
  "set ALFA \<subseteq> dom letters"
  by (simp add: ALFA_def dom_letters)

lemmas eval_search =
  play_def min_max_smart_def fail_strategy_def best_search_def smart_learn_def smart_teach_def
  letters_def letters_items_def ALFA_def FA_def PASS_def candidates_def acceptable_def
  permutations_numeral

lemma acceptable_ALFA_FA: "acceptable ALFA {ALFA, FA} = [FA, FA, ALFA, ALFA]"
  by (simp add: eval_search)

lemma acceptable_ALFA: "acceptable ALFA {ALFA} = [ALFA, ALFA]"
  by (simp add: eval_search)

text \<open>
  Claim C3.  With the strategy \<open>SMART\<close> and a hand of table letters, \<open>play\<close> goes
  through every arity from 2 to the size of the hand and every permutation of each arity.
  It returns \<open>"PASS"\<close> if and only if no permutation of any arity \<open>2..k\<close> is in the
  oracle (the dictionary united with the learned words).  Otherwise it returns an
  acceptable word whose score is at least the score of every acceptable word of the hand,
  and strictly greater than the score of every acceptable word enumerated before it: the
  first word of greatest score in the order of enumeration.
\<close>

theorem smart_play_best:
  assumes "strategy c = St_SMART" and "set (hand c) \<subseteq> dom letters"
  shows "(play c dict = Inr PASS \<longleftrightarrow>
            (\<forall>i. 2 \<le> i \<and> i \<le> length (hand c) \<longrightarrow>
               (\<forall>w\<in>set (permutations (hand c) i). w \<notin> dict \<union> learned_words c))) \<and>
         (\<forall>v\<in>set (acceptable (hand c) (dict \<union> learned_words c)).
            word_score v = Inr (points v)) \<and>
         (acceptable (hand c) (dict \<union> learned_words c) \<noteq> [] \<longrightarrow>
            (\<exists>pre w post. play c dict = Inr w \<and>
               acceptable (hand c) (dict \<union> learned_words c) = pre @ w # post \<and>
               word_score w = Inr (points w) \<and>
               (\<forall>v\<in>set pre. points v < points w) \<and>
               (\<forall>v\<in>set post. points v \<le> points w) \<and>
               (\<forall>v\<in>set (acceptable (hand c) (dict \<union> learned_words c)). points v \<le> points w)))"
proof -
  let ?A = "acceptable (hand c) (dict \<union> learned_words c)"
  have p: "play c dict = best_search (hand c) (dict \<union> learned_words c)"
    using assms(1) by (simp add: play_def min_max_smart_other)
  note spec = best_search_spec [OF assms(2), of "dict \<union> learned_words c"]
  have best: "\<exists>pre w post. play c dict = Inr w \<and> ?A = pre @ w # post \<and>
               word_score w = Inr (points w) \<and>
               (\<forall>v\<in>set pre. points v < points w) \<and>
               (\<forall>v\<in>set post. points v \<le> points w) \<and>
               (\<forall>v\<in>set ?A. points v \<le> points w)" if ne: "?A \<noteq> []"
  proof -
    from spec ne obtain pre w post where w: "best_search (hand c) (dict \<union> learned_words c) = Inr w"
      "?A = pre @ w # post" "\<forall>v\<in>set pre. points v < points w"
      "\<forall>v\<in>set post. points v \<le> points w"
      by blast
    have "w \<in> set ?A" using w(2) by simp
    then have "word_score w = Inr (points w)"
      using acceptable_letters [OF assms(2)] word_score_points by blast
    moreover have "\<forall>v\<in>set ?A. points v \<le> points w"
      unfolding w(2) using w(3,4) by auto
    ultimately show ?thesis using w p by auto
  qed
  have "play c dict = Inr PASS \<longleftrightarrow> ?A = []"
  proof
    assume pass: "play c dict = Inr PASS"
    show "?A = []"
    proof (rule ccontr)
      assume "?A \<noteq> []"
      from best [OF this] obtain pre post where "?A = pre @ PASS # post"
        using pass by auto
      then have "PASS \<in> set ?A" by simp
      then have "PASS \<in> set (candidates (hand c))" by (simp add: set_acceptable)
      then show False using candidates_not_PASS [OF assms(2)] by simp
    qed
  next
    assume "?A = []"
    then show "play c dict = Inr PASS" using spec p by simp
  qed
  moreover have "\<forall>v\<in>set ?A. word_score v = Inr (points v)"
    using acceptable_letters [OF assms(2)] word_score_points by blast
  ultimately show ?thesis using best by (simp add: acceptable_Nil_iff)
qed

theorem smart_play_best_witness:
  "strategy \<lparr>hand = ALFA, score = 0, strategy = St_SMART, learned_words = {}\<rparr> = St_SMART \<and>
   set (hand \<lparr>hand = ALFA, score = 0, strategy = St_SMART, learned_words = {}\<rparr>) \<subseteq> dom letters \<and>
   play \<lparr>hand = ALFA, score = 0, strategy = St_SMART, learned_words = {}\<rparr> {ALFA, FA} = Inr ALFA \<and>
   acceptable ALFA {ALFA, FA} = [FA, FA] @ ALFA # [ALFA] \<and>
   points FA < points ALFA"
proof -
  let ?c = "\<lparr>hand = ALFA, score = 0, strategy = St_SMART, learned_words = {}\<rparr>"
  have h: "strategy ?c = St_SMART" "set (hand ?c) \<subseteq> dom letters"
    by (simp_all add: eval_hand_letters)
  have A: "acceptable (hand ?c) ({ALFA, FA} \<union> learned_words ?c) = [FA, FA, ALFA, ALFA]"
    by (simp add: acceptable_ALFA_FA)
  from smart_play_best [OF h, of "{ALFA, FA}"] obtain pre w post where
    w: "play ?c {ALFA, FA} = Inr w" "[FA, FA, ALFA, ALFA] = pre @ w # post"
    "\<forall>v\<in>set pre. points v < points w" "\<forall>v\<in>set [FA, FA, ALFA, ALFA]. points v \<le> points w"
    unfolding A by blast
  have "play ?c {ALFA, FA} = Inr ALFA" by (simp add: eval_search)
  with w(1) have "w = ALFA" by simp
  moreover have "FA \<noteq> ALFA" by (simp add: ALFA_def FA_def)
  ultimately have "FA \<in> set pre" using w(2)
    by (cases pre) (auto simp: Cons_eq_append_conv)
  then have "points FA < points ALFA" using w(3) \<open>w = ALFA\<close> by simp
  then show ?thesis using h \<open>play ?c {ALFA, FA} = Inr ALFA\<close> acceptable_ALFA_FA by simp
qed

lemma min_max_play_find:
  assumes st: "strategy c = St_MIN \<or> strategy c = St_MAX"
  shows "play c dict =
     (case find (\<lambda>i. filter (\<lambda>w. w \<in> dict \<union> learned_words c) (permutations (hand c) i) \<noteq> [])
             (if strategy c = St_MIN then [2..<length (hand c) + 1]
              else rev [2..<length (hand c) + 1]) of
        None \<Rightarrow> Inr PASS
      | Some i \<Rightarrow> Inr (hd (filter (\<lambda>w. w \<in> dict \<union> learned_words c) (permutations (hand c) i))))"
proof -
  have "play c dict = min_max_smart c (dict \<union> learned_words c)"
    using st by (auto simp: play_def)
  moreover have "strategy c \<noteq> St_SMART" using st by auto
  ultimately show ?thesis
    unfolding min_max_smart_def min_max_loop_find [OF st]
    by (simp split: option.splits del: upt_Suc)
qed

lemma min_max_play_spec:
  assumes h: "set (hand c) \<subseteq> dom letters"
    and st: "strategy c = St_MIN \<or> strategy c = St_MAX"
    and R: "sorted_wrt R (if strategy c = St_MIN then [2..<length (hand c) + 1]
                          else rev [2..<length (hand c) + 1])"
  shows "(play c dict = Inr PASS \<longleftrightarrow> acceptable (hand c) (dict \<union> learned_words c) = []) \<and>
     (acceptable (hand c) (dict \<union> learned_words c) \<noteq> [] \<longrightarrow>
        (\<exists>w. play c dict = Inr w \<and> w \<in> set (acceptable (hand c) (dict \<union> learned_words c)) \<and>
           (\<forall>v\<in>set (acceptable (hand c) (dict \<union> learned_words c)).
              length v = length w \<or> R (length w) (length v)) \<and>
           w = hd (filter (\<lambda>v. v \<in> dict \<union> learned_words c)
                     (permutations (hand c) (length w)))))"
proof -
  let ?ws = "dict \<union> learned_words c"
  let ?A = "acceptable (hand c) ?ws"
  let ?P = "\<lambda>i. filter (\<lambda>w. w \<in> ?ws) (permutations (hand c) i) \<noteq> []"
  let ?is = "if strategy c = St_MIN then [2..<length (hand c) + 1]
             else rev [2..<length (hand c) + 1]"
  have set_is: "set ?is = {i. 2 \<le> i \<and> i \<le> length (hand c)}" by auto
  have hit: "?P (length v) \<and> length v \<in> set ?is" if "v \<in> set ?A" for v
  proof -
    from that have v: "v \<in> ?ws" "v \<in> set (candidates (hand c))"
      by (simp_all add: set_acceptable)
    have "v \<in> set (permutations (hand c) (length v))" using v(2) by (rule candidates_arity)
    then have "?P (length v)" using v(1) by (auto simp: filter_empty_conv)
    moreover have "length v \<in> set ?is"
      unfolding set_is using candidates_length [OF v(2)] by simp
    ultimately show ?thesis by simp
  qed
  show ?thesis
  proof (cases "find ?P ?is")
    case None
    then have no: "\<forall>i\<in>set ?is. \<not> ?P i" by (simp only: find_None_set)
    have "?A = []"
    proof (cases ?A)
      case Nil
      then show ?thesis .
    next
      case (Cons v vs)
      then have "v \<in> set ?A" by simp
      then show ?thesis using hit [of v] no by blast
    qed
    moreover have "play c dict = Inr PASS"
      unfolding min_max_play_find [OF st] None by simp
    ultimately show ?thesis by simp
  next
    case (Some i)
    let ?w = "hd (filter (\<lambda>w. w \<in> ?ws) (permutations (hand c) i))"
    have i: "i \<in> set ?is" "?P i" using find_Some_set [OF Some] by simp_all
    have pw: "play c dict = Inr ?w"
      unfolding min_max_play_find [OF st] Some by simp
    have mem: "?w \<in> set (filter (\<lambda>w. w \<in> ?ws) (permutations (hand c) i))"
      using i(2) by (rule hd_in_set)
    then have wi: "?w \<in> set (permutations (hand c) i)" "?w \<in> ?ws" by simp_all
    have len: "length ?w = i" using wi(1) by (rule permutations_length)
    have "2 \<le> i \<and> i \<le> length (hand c)" using i(1) unfolding set_is by simp
    then have cand: "?w \<in> set (candidates (hand c))"
      unfolding candidates_iff using wi(1) by blast
    then have inA: "?w \<in> set ?A" using wi(2) by (simp add: set_acceptable)
    have "?w \<noteq> PASS" using candidates_not_PASS [OF h] cand by metis
    then have "play c dict \<noteq> Inr PASS" using pw by simp
    moreover have "?A \<noteq> []" using inA by auto
    moreover have "\<forall>v\<in>set ?A. length v = length ?w \<or> R (length ?w) (length v)"
    proof
      fix v assume "v \<in> set ?A"
      then have "?P (length v)" "length v \<in> set ?is" using hit [of v] by simp_all
      then have "length v = i \<or> R i (length v)"
        using find_sorted_wrt [OF R Some, of "length v"] by blast
      then show "length v = length ?w \<or> R (length ?w) (length v)" unfolding len .
    qed
    moreover have "?w = hd (filter (\<lambda>v. v \<in> ?ws) (permutations (hand c) (length ?w)))"
      unfolding len ..
    ultimately show ?thesis using pw inA by blast
  qed
qed

text \<open>
  Claim C4.  With the strategy \<open>MIN\<close> and a hand of table letters, a word returned by
  \<open>play\<close> is an acceptable word of minimal length among the acceptable words of the hand,
  and it is the first acceptable permutation, in the order of enumeration, of its arity,
  which is the smallest arity with an acceptable word.  With \<open>MAX\<close> it is of maximal
  length, the first acceptable permutation of the largest arity with an acceptable word.
  Both return \<open>"PASS"\<close> exactly when no arity \<open>2..k\<close> has an acceptable permutation.
\<close>

theorem min_max_play_first:
  assumes "set (hand c) \<subseteq> dom letters"
  shows "(strategy c = St_MIN \<or> strategy c = St_MAX \<longrightarrow>
            (play c dict = Inr PASS \<longleftrightarrow>
               (\<forall>i. 2 \<le> i \<and> i \<le> length (hand c) \<longrightarrow>
                  (\<forall>w\<in>set (permutations (hand c) i). w \<notin> dict \<union> learned_words c)))) \<and>
         (strategy c = St_MIN \<and> acceptable (hand c) (dict \<union> learned_words c) \<noteq> [] \<longrightarrow>
            (\<exists>w. play c dict = Inr w \<and>
               w \<in> set (acceptable (hand c) (dict \<union> learned_words c)) \<and>
               (\<forall>v\<in>set (acceptable (hand c) (dict \<union> learned_words c)). length w \<le> length v) \<and>
               w = hd (filter (\<lambda>v. v \<in> dict \<union> learned_words c)
                         (permutations (hand c) (length w))))) \<and>
         (strategy c = St_MAX \<and> acceptable (hand c) (dict \<union> learned_words c) \<noteq> [] \<longrightarrow>
            (\<exists>w. play c dict = Inr w \<and>
               w \<in> set (acceptable (hand c) (dict \<union> learned_words c)) \<and>
               (\<forall>v\<in>set (acceptable (hand c) (dict \<union> learned_words c)). length v \<le> length w) \<and>
               w = hd (filter (\<lambda>v. v \<in> dict \<union> learned_words c)
                         (permutations (hand c) (length w)))))"
proof (intro conjI impI)
  assume st: "strategy c = St_MIN \<or> strategy c = St_MAX"
  have "\<exists>R. sorted_wrt R (if strategy c = St_MIN then [2..<length (hand c) + 1]
                          else rev [2..<length (hand c) + 1])"
  proof (cases "strategy c = St_MIN")
    case True
    then have "sorted_wrt (<) (if strategy c = St_MIN then [2..<length (hand c) + 1]
                          else rev [2..<length (hand c) + 1])"
      by (simp del: upt_Suc)
    then show ?thesis by (rule exI [of _ "(<)"])
  next
    case False
    then have "sorted_wrt (>) (if strategy c = St_MIN then [2..<length (hand c) + 1]
                          else rev [2..<length (hand c) + 1])"
      by (simp add: sorted_wrt_rev del: upt_Suc)
    then show ?thesis by (rule exI [of _ "(>)"])
  qed
  then obtain R where "sorted_wrt R (if strategy c = St_MIN then [2..<length (hand c) + 1]
                          else rev [2..<length (hand c) + 1])" ..
  from min_max_play_spec [OF assms st this, of dict]
  show "play c dict = Inr PASS \<longleftrightarrow>
          (\<forall>i. 2 \<le> i \<and> i \<le> length (hand c) \<longrightarrow>
             (\<forall>w\<in>set (permutations (hand c) i). w \<notin> dict \<union> learned_words c))"
    by (simp add: acceptable_Nil_iff)
next
  assume a: "strategy c = St_MIN \<and> acceptable (hand c) (dict \<union> learned_words c) \<noteq> []"
  then have st: "strategy c = St_MIN \<or> strategy c = St_MAX" by simp
  have "sorted_wrt (<) (if strategy c = St_MIN then [2..<length (hand c) + 1]
                          else rev [2..<length (hand c) + 1])"
    using a by (simp del: upt_Suc)
  from min_max_play_spec [OF assms st this, of dict] a
  obtain w where w: "play c dict = Inr w"
    "w \<in> set (acceptable (hand c) (dict \<union> learned_words c))"
    "\<forall>v\<in>set (acceptable (hand c) (dict \<union> learned_words c)).
        length v = length w \<or> length w < length v"
    "w = hd (filter (\<lambda>v. v \<in> dict \<union> learned_words c) (permutations (hand c) (length w)))"
    by blast
  from w(3) have "\<forall>v\<in>set (acceptable (hand c) (dict \<union> learned_words c)). length w \<le> length v"
    by auto
  with w(1,2,4)
  show "\<exists>w. play c dict = Inr w \<and>
               w \<in> set (acceptable (hand c) (dict \<union> learned_words c)) \<and>
               (\<forall>v\<in>set (acceptable (hand c) (dict \<union> learned_words c)). length w \<le> length v) \<and>
               w = hd (filter (\<lambda>v. v \<in> dict \<union> learned_words c)
                         (permutations (hand c) (length w)))"
    by blast
next
  assume a: "strategy c = St_MAX \<and> acceptable (hand c) (dict \<union> learned_words c) \<noteq> []"
  then have st: "strategy c = St_MIN \<or> strategy c = St_MAX" by simp
  have "sorted_wrt (>) (if strategy c = St_MIN then [2..<length (hand c) + 1]
                          else rev [2..<length (hand c) + 1])"
    using a by (simp add: sorted_wrt_rev del: upt_Suc)
  from min_max_play_spec [OF assms st this, of dict] a
  obtain w where w: "play c dict = Inr w"
    "w \<in> set (acceptable (hand c) (dict \<union> learned_words c))"
    "\<forall>v\<in>set (acceptable (hand c) (dict \<union> learned_words c)).
        length v = length w \<or> length w > length v"
    "w = hd (filter (\<lambda>v. v \<in> dict \<union> learned_words c) (permutations (hand c) (length w)))"
    by blast
  from w(3) have "\<forall>v\<in>set (acceptable (hand c) (dict \<union> learned_words c)). length v \<le> length w"
    by auto
  with w(1,2,4)
  show "\<exists>w. play c dict = Inr w \<and>
               w \<in> set (acceptable (hand c) (dict \<union> learned_words c)) \<and>
               (\<forall>v\<in>set (acceptable (hand c) (dict \<union> learned_words c)). length v \<le> length w) \<and>
               w = hd (filter (\<lambda>v. v \<in> dict \<union> learned_words c)
                         (permutations (hand c) (length w)))"
    by blast
qed

theorem min_max_play_first_witness:
  "set (hand \<lparr>hand = ALFA, score = 0, strategy = St_MIN, learned_words = {}\<rparr>) \<subseteq> dom letters \<and>
   play \<lparr>hand = ALFA, score = 0, strategy = St_MIN, learned_words = {}\<rparr> {ALFA, FA} = Inr FA \<and>
   play \<lparr>hand = ALFA, score = 0, strategy = St_MAX, learned_words = {}\<rparr> {ALFA, FA} = Inr ALFA \<and>
   (\<exists>w. play \<lparr>hand = ALFA, score = 0, strategy = St_MIN, learned_words = {}\<rparr> {ALFA, FA} = Inr w \<and>
        (\<forall>v\<in>set [FA, FA, ALFA, ALFA]. length w \<le> length v)) \<and>
   (\<exists>w. play \<lparr>hand = ALFA, score = 0, strategy = St_MAX, learned_words = {}\<rparr> {ALFA, FA} = Inr w \<and>
        (\<forall>v\<in>set [FA, FA, ALFA, ALFA]. length v \<le> length w))"
proof -
  let ?c = "\<lparr>hand = ALFA, score = 0, strategy = St_MIN, learned_words = {}\<rparr>"
  let ?d = "\<lparr>hand = ALFA, score = 0, strategy = St_MAX, learned_words = {}\<rparr>"
  have h: "set (hand ?c) \<subseteq> dom letters" by (simp add: eval_hand_letters)
  have A: "acceptable (hand ?c) ({ALFA, FA} \<union> learned_words ?c) = [FA, FA, ALFA, ALFA]"
    by (simp add: acceptable_ALFA_FA)
  have "\<exists>w. play ?c {ALFA, FA} = Inr w \<and> (\<forall>v\<in>set [FA, FA, ALFA, ALFA]. length w \<le> length v)"
    using min_max_play_first [OF h, of "{ALFA, FA}"] unfolding A by auto
  moreover have "\<exists>w. play ?d {ALFA, FA} = Inr w \<and> (\<forall>v\<in>set [FA, FA, ALFA, ALFA]. length v \<le> length w)"
  proof -
    have hd: "set (hand ?d) \<subseteq> dom letters" by (simp add: eval_hand_letters)
    have Ad: "acceptable (hand ?d) ({ALFA, FA} \<union> learned_words ?d) = [FA, FA, ALFA, ALFA]"
      by (simp add: acceptable_ALFA_FA)
    show ?thesis using min_max_play_first [OF hd, of "{ALFA, FA}"] unfolding Ad by auto
  qed
  moreover have "play ?c {ALFA, FA} = Inr FA" by (simp add: eval_search)
  moreover have "play ?d {ALFA, FA} = Inr ALFA" by (simp add: eval_search)
  ultimately show ?thesis using h by blast
qed

lemma learn_play_always_passes: "strategy c = St_LEARN \<Longrightarrow> play c dict = Inr PASS"
  by (simp add: play_def smart_learn_def min_max_smart_other)

lemma descending_first_two:
  fixes ps :: "('a::linorder) list"
  assumes d: "distinct ps" and l: "2 \<le> length ps"
  shows "\<exists>top second. rev (sort ps) ! 0 = top \<and> rev (sort ps) ! 1 = second \<and>
           top \<in> set ps \<and> second \<in> set ps \<and> second < top \<and>
           (\<forall>e\<in>set ps. e \<le> top) \<and> (\<forall>e\<in>set ps. e \<noteq> top \<longrightarrow> e \<le> second)"
proof -
  let ?ys = "rev (sort ps)"
  have len: "length ?ys = length ps" by simp
  then obtain a b rest where ys: "?ys = a # b # rest"
    using l by (metis Suc_le_length_iff numeral_2_eq_2)
  have desc: "sorted_wrt (\<lambda>x y. y \<le> x) ?ys"
    by (simp add: sorted_wrt_rev)
  have dist: "distinct ?ys" using d by simp
  have sets: "set ?ys = set ps" by simp
  from desc ys have a: "\<forall>e\<in>set (b # rest). e \<le> a" and b: "\<forall>e\<in>set rest. e \<le> b"
    by simp_all
  from dist ys have ne: "a \<noteq> b" by auto
  have "b < a" using a ne by auto
  moreover have "\<forall>e\<in>set ps. e \<le> a" using a sets ys by (metis order_refl set_ConsD)
  moreover have "\<forall>e\<in>set ps. e \<noteq> a \<longrightarrow> e \<le> b" using b sets ys by (metis order_refl set_ConsD)
  moreover have "a \<in> set ps" "b \<in> set ps" using sets ys by (metis list.set_intros)+
  ultimately show ?thesis using ys by simp
qed

text \<open>
  Claim C1, amended.  With the strategy \<open>FAIL\<close> and a hand of table letters, \<open>play\<close>
  collects one \<open>(score, word)\<close> pair for every acceptable permutation of the positions of
  the hand, over every arity \<open>2..k\<close>; a word that several permutations spell (the hand
  holds a letter twice) is collected once for each of them.  It returns \<open>"PASS"\<close> when
  there is no pair, the word of the only pair when there is one, and otherwise the word of
  the second pair of the list sorted descending by score and then by word, repetitions
  included.  When all pairs carry one and the same acceptable word, that word is returned.
  When the letters of the hand are pairwise distinct the pairs are pairwise distinct, and
  then, with at least two pairs, the returned word belongs to the second-highest pair: a
  pair strictly below the highest one and above every other pair.
\<close>

theorem fail_play_second:
  assumes "strategy c = St_FAIL" and "set (hand c) \<subseteq> dom letters"
  shows "let ps = map (\<lambda>w. (points w, w)) (acceptable (hand c) (dict \<union> learned_words c)) in
     (\<forall>e\<in>set ps. word_score (snd e) = Inr (fst e)) \<and>
     (ps = [] \<longrightarrow> play c dict = Inr PASS) \<and>
     (length ps = 1 \<longrightarrow> play c dict = Inr (snd (hd ps))) \<and>
     (2 \<le> length ps \<longrightarrow> play c dict = Inr (snd (rev (sort ps) ! 1))) \<and>
     (\<forall>e. set ps = {e} \<longrightarrow> play c dict = Inr (snd e)) \<and>
     (distinct (hand c) \<longrightarrow> distinct ps) \<and>
     (distinct ps \<and> 2 \<le> length ps \<longrightarrow>
        (\<exists>top second. top \<in> set ps \<and> second \<in> set ps \<and> second < top \<and>
           (\<forall>e\<in>set ps. e \<le> top) \<and> (\<forall>e\<in>set ps. e \<noteq> top \<longrightarrow> e \<le> second) \<and>
           play c dict = Inr (snd second)))"
proof -
  define ps where "ps = map (\<lambda>w. (points w, w)) (acceptable (hand c) (dict \<union> learned_words c))"
  have p: "play c dict =
      Inr (if ps = [] then PASS
           else if 1 < length ps then snd (rev (sort ps) ! 1)
           else snd (rev (sort ps) ! 0))"
    using assms(1) by (simp add: play_def fail_strategy_eq [OF assms(2)] Let_def ps_def)
  have c0: "\<forall>e\<in>set ps. word_score (snd e) = Inr (fst e)"
    unfolding ps_def using acceptable_letters [OF assms(2)] word_score_points by auto
  have c1: "ps = [] \<longrightarrow> play c dict = Inr PASS" using p by simp
  have c2: "length ps = 1 \<longrightarrow> play c dict = Inr (snd (hd ps))"
  proof
    assume "length ps = 1"
    then obtain e where e: "ps = [e]" by (cases ps) auto
    show "play c dict = Inr (snd (hd ps))" unfolding p e by simp
  qed
  have c3: "2 \<le> length ps \<longrightarrow> play c dict = Inr (snd (rev (sort ps) ! 1))"
    using p by auto
  have c4: "\<forall>e. set ps = {e} \<longrightarrow> play c dict = Inr (snd e)"
  proof (intro allI impI)
    fix e assume e: "set ps = {e}"
    then have ne: "ps \<noteq> []" by auto
    let ?i = "if 1 < length ps then 1 else 0 :: nat"
    have "?i < length (rev (sort ps))" using ne by (cases ps) auto
    then have "rev (sort ps) ! ?i \<in> set (rev (sort ps))" by (rule nth_mem)
    then have "rev (sort ps) ! ?i = e" using e by simp
    moreover have "play c dict = Inr (snd (rev (sort ps) ! ?i))" using p ne by simp
    ultimately show "play c dict = Inr (snd e)" by simp
  qed
  have c5: "distinct (hand c) \<longrightarrow> distinct ps"
  proof
    assume "distinct (hand c)"
    then have "distinct (acceptable (hand c) (dict \<union> learned_words c))"
      unfolding acceptable_def by (intro distinct_filter candidates_distinct)
    moreover have "inj_on (\<lambda>w. (points w, w)) (set (acceptable (hand c) (dict \<union> learned_words c)))"
      by (simp add: inj_on_def)
    ultimately show "distinct ps" unfolding ps_def by (simp add: distinct_map)
  qed
  have c6: "distinct ps \<and> 2 \<le> length ps \<longrightarrow>
        (\<exists>top second. top \<in> set ps \<and> second \<in> set ps \<and> second < top \<and>
           (\<forall>e\<in>set ps. e \<le> top) \<and> (\<forall>e\<in>set ps. e \<noteq> top \<longrightarrow> e \<le> second) \<and>
           play c dict = Inr (snd second))"
  proof
    assume a: "distinct ps \<and> 2 \<le> length ps"
    then have "play c dict = Inr (snd (rev (sort ps) ! 1))" using c3 by simp
    then show "\<exists>top second. top \<in> set ps \<and> second \<in> set ps \<and> second < top \<and>
           (\<forall>e\<in>set ps. e \<le> top) \<and> (\<forall>e\<in>set ps. e \<noteq> top \<longrightarrow> e \<le> second) \<and>
           play c dict = Inr (snd second)"
      using descending_first_two [of ps] a by metis
  qed
  from c0 c1 c2 c3 c4 c5 c6 show ?thesis unfolding ps_def Let_def by blast
qed

theorem fail_play_second_witness:
  "strategy \<lparr>hand = [Gr_ALPHA, Gr_LAMBDA, Gr_PHI, Gr_EPSILON], score = 0, strategy = St_FAIL,
             learned_words = {}\<rparr> = St_FAIL \<and>
   set (hand \<lparr>hand = [Gr_ALPHA, Gr_LAMBDA, Gr_PHI, Gr_EPSILON], score = 0, strategy = St_FAIL,
              learned_words = {}\<rparr>) \<subseteq> dom letters \<and>
   distinct [Gr_ALPHA, Gr_LAMBDA, Gr_PHI, Gr_EPSILON] \<and>
   map (\<lambda>w. (points w, w))
     (acceptable [Gr_ALPHA, Gr_LAMBDA, Gr_PHI, Gr_EPSILON]
        {FA, [Gr_ALPHA, Gr_LAMBDA, Gr_PHI, Gr_EPSILON]})
     = [(9, FA), (13, [Gr_ALPHA, Gr_LAMBDA, Gr_PHI, Gr_EPSILON])] \<and>
   play \<lparr>hand = [Gr_ALPHA, Gr_LAMBDA, Gr_PHI, Gr_EPSILON], score = 0, strategy = St_FAIL,
         learned_words = {}\<rparr> {FA, [Gr_ALPHA, Gr_LAMBDA, Gr_PHI, Gr_EPSILON]} = Inr FA"
proof -
  let ?c = "\<lparr>hand = [Gr_ALPHA, Gr_LAMBDA, Gr_PHI, Gr_EPSILON], score = 0, strategy = St_FAIL,
             learned_words = {}\<rparr>"
  let ?d = "{FA, [Gr_ALPHA, Gr_LAMBDA, Gr_PHI, Gr_EPSILON]}"
  let ?ps = "[(9 :: int, FA), (13, [Gr_ALPHA, Gr_LAMBDA, Gr_PHI, Gr_EPSILON])]"
  have h: "strategy ?c = St_FAIL" "set (hand ?c) \<subseteq> dom letters"
    by (simp_all add: dom_letters)
  have ps: "map (\<lambda>w. (points w, w)) (acceptable (hand ?c) (?d \<union> learned_words ?c)) = ?ps"
    by (simp add: eval_search points_def)
  have d: "distinct (hand ?c)" by simp
  from fail_play_second [OF h, of ?d] d
  have "distinct ?ps \<and> 2 \<le> length ?ps \<longrightarrow>
        (\<exists>top second. top \<in> set ?ps \<and> second \<in> set ?ps \<and> second < top \<and>
           play ?c ?d = Inr (snd second))"
    unfolding ps Let_def by blast
  moreover have "distinct ?ps \<and> 2 \<le> length ?ps" by (simp add: FA_def)
  ultimately obtain top second where
    t: "top \<in> set ?ps" "second \<in> set ?ps" "second < top" "play ?c ?d = Inr (snd second)"
    by blast
  have "second = (9, FA)"
  proof (rule ccontr)
    assume "second \<noteq> (9, FA)"
    then have "second = (13, [Gr_ALPHA, Gr_LAMBDA, Gr_PHI, Gr_EPSILON])" using t(2) by simp
    then show False using t(1,3) by (auto simp: FA_def less_prod_def)
  qed
  then have "play ?c ?d = Inr FA" using t(4) by simp
  then show ?thesis using h ps by simp
qed

text \<open>
  Claim C1 as stated fails where the hand holds a letter twice.  The hand
  alpha-lambda-phi-alpha has exactly two acceptable words in the dictionary of the two
  words alpha-lambda-phi-alpha (13 points) and phi-alpha (9 points); each is spelled by
  two permutations, the sorted list starts with the 13-point pair twice, and \<open>play\<close>
  returns the 13-point word, the single highest-scoring one, not the word scoring 9.
\<close>

theorem fail_play_counterexample:
  "play \<lparr>hand = ALFA, score = 0, strategy = St_FAIL, learned_words = {}\<rparr> {ALFA, FA} = Inr ALFA \<and>
   acceptable ALFA {ALFA, FA} = [FA, FA, ALFA, ALFA] \<and>
   word_score ALFA = Inr 13 \<and> word_score FA = Inr 9"
  by (simp add: eval_search)

text \<open>
  Claim C2.  The claim says that \<open>LEARN\<close> returns what \<open>MIN\<close> returns.  On the hand
  alpha-lambda-phi-alpha with that word in the dictionary, \<open>play\<close> returns \<open>"PASS"\<close>
  under \<open>LEARN\<close>, although the word is acceptable and \<open>MIN\<close> returns it: in
  \<open>min_max_smart\<close> the early return is taken for \<open>MIN\<close> and \<open>MAX\<close> only and the
  exhaustive search for \<open>SMART\<close> only, so \<open>LEARN\<close> falls through to the final
  \<open>return "PASS"\<close>.
\<close>

theorem learn_play_passes:
  "play \<lparr>hand = ALFA, score = 0, strategy = St_LEARN, learned_words = {}\<rparr> {ALFA} = Inr PASS \<and>
   play \<lparr>hand = ALFA, score = 0, strategy = St_MIN, learned_words = {}\<rparr> {ALFA} = Inr ALFA \<and>
   acceptable ALFA {ALFA} = [ALFA, ALFA]"
  by (simp add: eval_search)

section \<open>Properties of the turn loop\<close>

lemma getletters_Inr:
  assumes "getletters n bag = Inr (h, bag')"
  shows "bag = bag' @ rev h" and "length h = min (nat n) (length bag)"
  using assms unfolding getletters_eq by auto

lemma getletters_total: "\<exists>h bag'. getletters n bag = Inr (h, bag')"
  unfolding getletters_eq by simp

lemma getletters_sets:
  assumes "getletters n bag = Inr (h, bag')"
  shows "set h \<subseteq> set bag" and "set bag' \<subseteq> set bag"
    and "length bag' + length h = length bag"
proof -
  have b: "bag = bag' @ rev h" using assms by (rule getletters_Inr)
  show "set h \<subseteq> set bag" by (subst b) simp
  show "set bag' \<subseteq> set bag" by (subst b) simp
  have "length bag = length (bag' @ rev h)" using b by simp
  then show "length bag' + length h = length bag" by simp
qed

lemma remove_letters_Inr: "remove_letters w h = Inr h' \<Longrightarrow> mset h' + mset w = mset h"
proof (induction w arbitrary: h)
  case Nil
  then show ?case by simp
next
  case (Cons l w)
  from Cons.prems have l: "l \<in> set h" and r: "remove_letters w (remove1 l h) = Inr h'"
    by (auto simp: list_remove_def split: if_splits)
  have "mset h' + mset w = mset (remove1 l h)" using Cons.IH [OF r] .
  then show ?case using l by simp
qed

lemma remove_letters_total: "mset w \<subseteq># mset h \<Longrightarrow> \<exists>h'. remove_letters w h = Inr h'"
proof (induction w arbitrary: h)
  case Nil
  show ?case by simp
next
  case (Cons l w)
  then have "l \<in># mset h" by (simp add: insert_subset_eq_iff)
  then have l: "l \<in> set h" by simp
  have "mset w \<subseteq># mset (remove1 l h)"
    using Cons.prems by (simp add: insert_subset_eq_iff)
  from Cons.IH [OF this] show ?case using l by (simp add: list_remove_def)
qed

lemma count_guard_mset:
  assumes "list_all (\<lambda>l. count_list w l \<le> count_list h l) w"
  shows "mset w \<subseteq># mset h"
proof (rule mset_subset_eqI)
  fix a
  show "count (mset w) a \<le> count (mset h) a"
  proof (cases "a \<in> set w")
    case True
    then show ?thesis using assms by (simp add: list_all_iff count_mset)
  next
    case False
    then show ?thesis by (simp add: count_mset count_list_0_iff)
  qed
qed

lemma played_letters_append:
  "played_letters (evs @ [ev]) =
     played_letters evs + (case ev of Played p w s \<Rightarrow> length w | _ \<Rightarrow> 0)"
  by (induction evs rule: played_letters.induct) (auto split: event.splits)

lemma advised_append:
  "advised (evs @ [ev]) = advised evs @ (case ev of BestWord w \<Rightarrow> [w] | _ \<Rightarrow> [])"
  by (induction evs rule: advised.induct) (auto split: event.splits)

lemma print_fields [simp]:
  "sak (print ev g) = sak g" "human (print ev g) = human g" "comp (print ev g) = comp g"
  "wordset (print ev g) = wordset g" "game_strategy (print ev g) = game_strategy g"
  "turn (print ev g) = turn g" "printed (print ev g) = printed g @ [ev]"
  "active_hand p (print ev g) = active_hand p g"
  "active_score p (print ev g) = active_score p g"
  "total_letters (print ev g) = total_letters g"
  "table_letters (print ev g) = table_letters g"
  by (simp_all add: print_def active_hand_def active_score_def total_letters_def
      table_letters_def split: who.splits)

lemma change_letters_Inr:
  assumes "change_letters p rnd g = Inr g'"
  shows "\<exists>h bag'. getletters 7 (putbackletters rnd (active_hand p g) (sak g)) = Inr (h, bag') \<and>
           g' = print LettersChanged (set_hand p h (g\<lparr>sak := bag'\<rparr>))"
  using assms unfolding change_letters_def by (auto split: sum.splits)

lemma play_word_Inr:
  assumes "play_word p word g = Inr g'"
  shows "\<exists>s h drawn bag'. word_score word = Inr s \<and>
           remove_letters word (active_hand p g) = Inr h \<and>
           getletters (7 - int (length h)) (sak g) = Inr (drawn, bag') \<and>
           g' = print (Played p word s) (set_hand p (h @ drawn) (add_score p s (g\<lparr>sak := bag'\<rparr>)))"
  using assms unfolding play_word_def by (auto split: sum.splits)

lemma total_set_hand:
  "total_letters (set_hand p h g) + length (active_hand p g) = total_letters g + length h"
  by (cases p) (simp_all add: total_letters_def set_hand_def active_hand_def)

lemma total_add_score [simp]: "total_letters (add_score p s g) = total_letters g"
  by (cases p) (simp_all add: total_letters_def add_score_def)

lemma active_hand_frame [simp]:
  "active_hand p (add_score q s g) = active_hand p g"
  "active_hand p (g\<lparr>sak := b\<rparr>) = active_hand p g"
  "printed (set_hand p h g) = printed g" "printed (add_score p s g) = printed g"
  "sak (set_hand p h g) = sak g" "sak (add_score p s g) = sak g"
  by (simp_all add: active_hand_def add_score_def set_hand_def split: who.splits)

lemma total_sak_update:
  "total_letters (g\<lparr>sak := b\<rparr>) + length (sak g) = total_letters g + length b"
  by (simp add: total_letters_def)

lemma change_letters_count:
  assumes "change_letters p rnd g = Inr g'"
  shows "total_letters g' = total_letters g" and "printed g' = printed g @ [LettersChanged]"
proof -
  from change_letters_Inr [OF assms] obtain h bag' where
    gl: "getletters 7 (putbackletters rnd (active_hand p g) (sak g)) = Inr (h, bag')"
    and g': "g' = print LettersChanged (set_hand p h (g\<lparr>sak := bag'\<rparr>))"
    by blast
  have len: "length bag' + length h = length (sak g) + length (active_hand p g)"
    using getletters_sets(3) [OF gl] by simp
  have a: "total_letters (set_hand p h (g\<lparr>sak := bag'\<rparr>)) + length (active_hand p g)
      = total_letters (g\<lparr>sak := bag'\<rparr>) + length h"
    using total_set_hand [of p h "g\<lparr>sak := bag'\<rparr>"] by simp
  have b: "total_letters (g\<lparr>sak := bag'\<rparr>) + length (sak g) = total_letters g + length bag'"
    by (rule total_sak_update)
  have "total_letters (set_hand p h (g\<lparr>sak := bag'\<rparr>)) = total_letters g"
    using len a b by linarith
  then show "total_letters g' = total_letters g" unfolding g' by (simp only: print_fields)
  show "printed g' = printed g @ [LettersChanged]" unfolding g' by simp
qed

lemma play_word_count:
  assumes "play_word p word g = Inr g'"
  shows "total_letters g' + length word = total_letters g"
    and "\<exists>s. printed g' = printed g @ [Played p word s]"
proof -
  from play_word_Inr [OF assms] obtain s h drawn bag' where
    rl: "remove_letters word (active_hand p g) = Inr h"
    and gl: "getletters (7 - int (length h)) (sak g) = Inr (drawn, bag')"
    and g': "g' = print (Played p word s) (set_hand p (h @ drawn) (add_score p s (g\<lparr>sak := bag'\<rparr>)))"
    by blast
  have "size (mset h + mset word) = size (mset (active_hand p g))"
    using remove_letters_Inr [OF rl] by simp
  then have lh: "length h + length word = length (active_hand p g)" by simp
  have lb: "length bag' + length drawn = length (sak g)"
    using getletters_sets(3) [OF gl] .
  have a: "total_letters (set_hand p (h @ drawn) (add_score p s (g\<lparr>sak := bag'\<rparr>)))
        + length (active_hand p g)
      = total_letters (g\<lparr>sak := bag'\<rparr>) + (length h + length drawn)"
    using total_set_hand [of p "h @ drawn" "add_score p s (g\<lparr>sak := bag'\<rparr>)"] by simp
  have b: "total_letters (g\<lparr>sak := bag'\<rparr>) + length (sak g) = total_letters g + length bag'"
    by (rule total_sak_update)
  have "total_letters (set_hand p (h @ drawn) (add_score p s (g\<lparr>sak := bag'\<rparr>)))
        + length word = total_letters g"
    using lh lb a b by linarith
  then show "total_letters g' + length word = total_letters g"
    unfolding g' by (simp only: print_fields)
  show "\<exists>s. printed g' = printed g @ [Played p word s]" unfolding g' by simp
qed

lemma teach_advice_Inr:
  assumes "teach_advice word g = Inr g'"
  shows "\<exists>best. smart_teach (comp g) (wordset g) = Inr best \<and>
           g' = (if word \<in> wordset g then print (BestWord best) g else g)"
  using assms unfolding teach_advice_def by (cases "smart_teach (comp g) (wordset g)") auto

lemma apply_move_cases:
  assumes "apply_move p word rnd g = Inr g'"
  obtains (change) "word = CHANGE" "change_letters p rnd g = Inr g'"
    | (word) "word \<noteq> CHANGE" "word \<in> wordset g"
        "list_all (\<lambda>l. count_list word l \<le> count_list (active_hand p g) l) word"
        "play_word p word g = Inr g'"
    | (pass) "word = PASS" "g' = print (Passed p) g"
    | (teach) "p = Human" "game_strategy g = St_TEACH" "word \<noteq> CHANGE" "word \<noteq> PASS"
        "\<not> (word \<in> wordset g \<and>
            list_all (\<lambda>l. count_list word l \<le> count_list (active_hand p g) l) word)"
        "teach_advice word g = Inr g'"
    | (invalid) "g' = print InvalidWord g"
proof (cases "word = CHANGE")
  case True
  then show ?thesis using assms change by (simp add: apply_move_def)
next
  case nc: False
  show ?thesis
  proof (cases "word \<in> wordset g \<and>
            list_all (\<lambda>l. count_list word l \<le> count_list (active_hand p g) l) word")
    case True
    then have "apply_move p word rnd g = play_word p word g"
      unfolding apply_move_def using nc by (simp only: if_False if_True simp_thms)
    then show ?thesis using assms nc True word by simp
  next
    case nw: False
    have rest: "apply_move p word rnd g =
        (if word = PASS then Inr (print (Passed p) g)
         else if p = Human \<and> game_strategy g = St_TEACH then teach_advice word g
         else Inr (print InvalidWord g))"
      unfolding apply_move_def using nc nw by (simp only: if_False)
    show ?thesis
    proof (cases "word = PASS")
      case True
      then have "g' = print (Passed p) g" using assms rest by simp
      then show ?thesis using True pass by simp
    next
      case np: False
      show ?thesis
      proof (cases "p = Human \<and> game_strategy g = St_TEACH")
        case True
        then have "teach_advice word g = Inr g'" using assms rest np by simp
        then show ?thesis using True nc nw np teach by simp
      next
        case False
        then have "g' = print InvalidWord g" using assms rest np by auto
        then show ?thesis using invalid by simp
      qed
    qed
  qed
qed

lemma apply_move_count:
  assumes "apply_move p word rnd g = Inr g'"
  shows "total_letters g' + played_letters (printed g') =
         total_letters g + played_letters (printed g)"
  using assms
proof (cases rule: apply_move_cases)
  case change
  show ?thesis using change_letters_count [OF change(2)] by (simp add: played_letters_append)
next
  case word
  from play_word_count [OF word(4)] obtain s where
    "total_letters g' + length word = total_letters g"
    "printed g' = printed g @ [Played p word s]"
    by blast
  then show ?thesis by (simp add: played_letters_append)
next
  case pass
  then show ?thesis by (simp add: played_letters_append)
next
  case teach
  from teach_advice_Inr [OF teach(6)] obtain best where
    "g' = (if word \<in> wordset g then print (BestWord best) g else g)" by blast
  then show ?thesis by (simp add: played_letters_append)
next
  case invalid
  then show ?thesis by (simp add: played_letters_append)
qed

lemma shuffle_loop_no_swap: "i < length x \<or> i = 0 \<Longrightarrow> shuffle_loop no_swap i x = x"
proof (induction i arbitrary: x)
  case 0
  show ?case by simp
next
  case (Suc i)
  have "no_swap (Suc i) mod (Suc i + 1) = Suc i" by (simp add: no_swap_def)
  then show ?case using Suc by (simp add: Let_def)
qed

lemma shuffle_no_swap: "shuffle no_swap x = x"
  unfolding shuffle_def by (rule shuffle_loop_no_swap) (cases x, auto)

lemma replicate_numeral: "replicate (numeral k) x = x # replicate (pred_numeral k) x"
  by (simp add: numeral_eq_Suc)

lemma table_order:
  "concat (map (\<lambda>(letter, (cnt, _)). replicate cnt letter) letters_items) =
     replicate 12 Gr_ALPHA @ [Gr_BETA, Gr_GAMMA, Gr_GAMMA, Gr_DELTA, Gr_DELTA] @
     replicate 8 Gr_EPSILON @ [Gr_ZETA] @ replicate 7 Gr_ETA @ [Gr_THETA] @
     replicate 8 Gr_IOTA @ replicate 4 Gr_KAPPA @ replicate 3 Gr_LAMBDA @ replicate 3 Gr_MU @
     replicate 6 Gr_NU @ [Gr_XI] @ replicate 9 Gr_OMICRON @ replicate 4 Gr_PI @
     replicate 5 Gr_RHO @ replicate 7 Gr_SIGMA @ replicate 8 Gr_TAU @ replicate 4 Gr_UPSILON @
     [Gr_PHI, Gr_CHI, Gr_PSI, Gr_OMEGA, Gr_OMEGA, Gr_OMEGA]"
  by (simp add: letters_items_def replicate_numeral)

lemma randomize_sak_length: "length (randomize_sak rnd) = 102"
  unfolding randomize_sak_def shuffle_length table_order by simp

lemma randomize_sak_set: "set (randomize_sak rnd) \<subseteq> dom letters"
  unfolding randomize_sak_def shuffle_set table_order dom_letters by simp

lemma first_round_sak:
  "sak (first_round st ws) =
     replicate 12 Gr_ALPHA @ [Gr_BETA, Gr_GAMMA, Gr_GAMMA, Gr_DELTA, Gr_DELTA] @
     replicate 8 Gr_EPSILON @ [Gr_ZETA] @ replicate 7 Gr_ETA @ [Gr_THETA] @
     replicate 8 Gr_IOTA @ replicate 4 Gr_KAPPA @ replicate 3 Gr_LAMBDA @ replicate 3 Gr_MU @
     replicate 6 Gr_NU @ [Gr_XI] @ replicate 9 Gr_OMICRON @ replicate 4 Gr_PI @
     replicate 5 Gr_RHO @ replicate 7 Gr_SIGMA @ replicate 4 Gr_TAU"
  unfolding first_round_def table_order by simp

lemma first_round_setup:
  "game_setup (settings st (new_game no_swap ws)) = Inr (first_round st ws)"
  unfolding game_setup_def settings_def new_game_def randomize_sak_def shuffle_no_swap
    getletters_eq first_round_def table_order
  by (simp add: replicate_numeral)

lemma first_round_init: "run_init (first_round st ws) = first_round st ws"
  by (simp add: run_init_def first_round_def)

lemma played_letters_app [simp]:
  "played_letters (xs @ ys) = played_letters xs + played_letters ys"
  by (induction xs rule: played_letters.induct) simp_all

lemma advised_app [simp]: "advised (xs @ ys) = advised xs @ advised ys"
  by (induction xs rule: advised.induct) simp_all

lemma turn_update_fields [simp]:
  "total_letters (g\<lparr>turn := n\<rparr>) = total_letters g"
  "table_letters (g\<lparr>turn := n\<rparr>) = table_letters g"
  by (simp_all add: total_letters_def table_letters_def)

lemma run_turn_unfold:
  "run_turn typed rnd g =
     (case (case active g of Human \<Rightarrow> Inr typed | Computer \<Rightarrow> play (comp g) (wordset g)) of
        Inl e \<Rightarrow> Inl e
      | Inr word \<Rightarrow>
          if word = QUIT
          then Inr (Break (print (QuitMsg (active g))
                 (print (Status (active g) (active_hand (active g) g) (active_score (active g) g)) g)))
          else
            (case apply_move (active g) word rnd
                    (print (Status (active g) (active_hand (active g) g)
                              (active_score (active g) g)) g) of
               Inl e \<Rightarrow> Inl e
             | Inr g' \<Rightarrow>
                 if sak g' = [] then Inr (Break (print NoMoreLetters g'))
                 else Inr (Continue (g'\<lparr>turn := turn g' + 1\<rparr>))))"
  unfolding run_turn_def active_def Let_def print_fields ..

lemma run_turn_cases:
  assumes "run_turn typed rnd g = Inr r"
  obtains (quit) "(case active g of Human \<Rightarrow> Inr typed | Computer \<Rightarrow> play (comp g) (wordset g))
                    = Inr QUIT"
      "r = Break (print (QuitMsg (active g))
             (print (Status (active g) (active_hand (active g) g) (active_score (active g) g)) g))"
  | (move) word g' where
      "(case active g of Human \<Rightarrow> Inr typed | Computer \<Rightarrow> play (comp g) (wordset g)) = Inr word"
      "word \<noteq> QUIT"
      "apply_move (active g) word rnd
         (print (Status (active g) (active_hand (active g) g) (active_score (active g) g)) g)
         = Inr g'"
      "r = (if sak g' = [] then Break (print NoMoreLetters g')
            else Continue (g'\<lparr>turn := turn g' + 1\<rparr>))"
proof -
  let ?g1 = "print (Status (active g) (active_hand (active g) g) (active_score (active g) g)) g"
  obtain word where w: "(case active g of Human \<Rightarrow> Inr typed
                          | Computer \<Rightarrow> play (comp g) (wordset g)) = Inr word"
    using assms unfolding run_turn_unfold by (auto split: sum.splits)
  show ?thesis
  proof (cases "word = QUIT")
    case True
    then show ?thesis using assms w quit unfolding run_turn_unfold by simp
  next
    case False
    then obtain g' where g': "apply_move (active g) word rnd ?g1 = Inr g'"
      using assms w unfolding run_turn_unfold by (auto split: sum.splits)
    then have "r = (if sak g' = [] then Break (print NoMoreLetters g')
            else Continue (g'\<lparr>turn := turn g' + 1\<rparr>))"
      using assms w False unfolding run_turn_unfold by (simp split: if_splits)
    then show ?thesis using w False g' move by blast
  qed
qed

lemma run_turn_count:
  assumes "run_turn typed rnd g = Inr r"
  shows "total_letters (after_turn r) + played_letters (printed (after_turn r)) =
         total_letters g + played_letters (printed g)"
  using assms
proof (cases rule: run_turn_cases)
  case quit
  then show ?thesis by (simp add: played_letters_append)
next
  case (move word g')
  have "total_letters g' + played_letters (printed g') =
        total_letters g + played_letters (printed g)"
    using apply_move_count [OF move(3)] by (simp add: played_letters_append)
  then show ?thesis unfolding move(4) by (simp add: played_letters_append)
qed

lemma table_set_hand:
  "table_letters g \<Longrightarrow> set h \<subseteq> dom letters \<Longrightarrow> table_letters (set_hand p h g)"
  by (cases p) (simp_all add: table_letters_def set_hand_def)

lemma table_add_score [simp]: "table_letters (add_score p s g) = table_letters g"
  by (cases p) (simp_all add: table_letters_def add_score_def)

lemma table_sak_update:
  "table_letters g \<Longrightarrow> set b \<subseteq> dom letters \<Longrightarrow> table_letters (g\<lparr>sak := b\<rparr>)"
  by (simp add: table_letters_def)

lemma table_active_hand: "table_letters g \<Longrightarrow> set (active_hand p g) \<subseteq> dom letters"
  by (cases p) (simp_all add: table_letters_def active_hand_def)

lemma change_letters_table:
  assumes t: "table_letters g"
  shows "\<exists>g'. change_letters p rnd g = Inr g' \<and> table_letters g'"
proof -
  let ?bag = "putbackletters rnd (active_hand p g) (sak g)"
  obtain h bag' where gl: "getletters 7 ?bag = Inr (h, bag')"
    using getletters_total by blast
  have "set ?bag \<subseteq> dom letters"
    using t table_active_hand [OF t, of p] by (simp add: table_letters_def)
  then have "set h \<subseteq> dom letters" "set bag' \<subseteq> dom letters"
    using getletters_sets(1,2) [OF gl] by auto
  then have "table_letters (print LettersChanged (set_hand p h (g\<lparr>sak := bag'\<rparr>)))"
    using t by (simp add: table_set_hand table_sak_update)
  then show ?thesis unfolding change_letters_def by (simp add: gl)
qed

lemma play_word_table:
  assumes t: "table_letters g"
    and guard: "list_all (\<lambda>l. count_list word l \<le> count_list (active_hand p g) l) word"
  shows "\<exists>g'. play_word p word g = Inr g' \<and> table_letters g'"
    and "word_score word = Inr (points word)"
proof -
  have sub: "mset word \<subseteq># mset (active_hand p g)" using guard by (rule count_guard_mset)
  then have "set word \<subseteq> set (active_hand p g)" by (metis set_mset_mono set_mset_mset)
  then have w: "set word \<subseteq> dom letters" using table_active_hand [OF t, of p] by auto
  then show sc: "word_score word = Inr (points word)" by (rule word_score_points)
  obtain h where rl: "remove_letters word (active_hand p g) = Inr h"
    using remove_letters_total [OF sub] by blast
  have "set_mset (mset h) \<subseteq> set_mset (mset h + mset word)" by simp
  then have "set h \<subseteq> set (active_hand p g)"
    using remove_letters_Inr [OF rl] by simp
  then have h: "set h \<subseteq> dom letters" using table_active_hand [OF t, of p] by auto
  obtain drawn bag' where gl: "getletters (7 - int (length h)) (sak g) = Inr (drawn, bag')"
    using getletters_total by blast
  have "set drawn \<subseteq> dom letters" "set bag' \<subseteq> dom letters"
    using getletters_sets(1,2) [OF gl] t by (auto simp: table_letters_def)
  then have "table_letters (print (Played p word (points word))
      (set_hand p (h @ drawn) (add_score p (points word) (g\<lparr>sak := bag'\<rparr>))))"
    using t h by (simp add: table_set_hand table_sak_update)
  then show "\<exists>g'. play_word p word g = Inr g' \<and> table_letters g'"
    unfolding play_word_def by (simp add: sc rl gl)
qed

lemma smart_teach_total:
  "set (hand c) \<subseteq> dom letters \<Longrightarrow> \<exists>w. smart_teach c ws = Inr w"
  unfolding smart_teach_def by (rule best_search_total)

lemma teach_advice_table:
  assumes t: "table_letters g"
  shows "\<exists>g'. teach_advice word g = Inr g' \<and> table_letters g'"
proof -
  obtain best where "smart_teach (comp g) (wordset g) = Inr best"
    using smart_teach_total [of "comp g" "wordset g"] t by (auto simp: table_letters_def)
  then show ?thesis unfolding teach_advice_def using t by simp
qed

lemma apply_move_table:
  assumes t: "table_letters g"
  shows "\<exists>g'. apply_move p word rnd g = Inr g' \<and> table_letters g'"
proof (cases "word = CHANGE")
  case True
  then show ?thesis using change_letters_table [OF t] by (simp add: apply_move_def)
next
  case nc: False
  show ?thesis
  proof (cases "word \<in> wordset g \<and>
            list_all (\<lambda>l. count_list word l \<le> count_list (active_hand p g) l) word")
    case True
    then have "apply_move p word rnd g = play_word p word g"
      unfolding apply_move_def using nc by (simp only: if_False if_True simp_thms)
    then show ?thesis using play_word_table(1) [OF t, of word p] True by simp
  next
    case nw: False
    have rest: "apply_move p word rnd g =
        (if word = PASS then Inr (print (Passed p) g)
         else if p = Human \<and> game_strategy g = St_TEACH then teach_advice word g
         else Inr (print InvalidWord g))"
      unfolding apply_move_def using nc nw by (simp only: if_False)
    show ?thesis unfolding rest using t teach_advice_table [OF t, of word] by simp
  qed
qed

lemma run_turn_table:
  assumes t: "table_letters g"
  shows "\<exists>r. run_turn typed rnd g = Inr r \<and> table_letters (after_turn r)"
proof -
  let ?g1 = "print (Status (active g) (active_hand (active g) g) (active_score (active g) g)) g"
  have "\<exists>w. play (comp g) (wordset g) = Inr w"
    using play_total [of "comp g" "wordset g"] t by (simp add: table_letters_def)
  then obtain word where w: "(case active g of Human \<Rightarrow> Inr typed
                          | Computer \<Rightarrow> play (comp g) (wordset g)) = Inr word"
    by (cases "active g") auto
  have t1: "table_letters ?g1" using t by simp
  from apply_move_table [OF t1] obtain g' where
    g': "apply_move (active g) word rnd ?g1 = Inr g'" "table_letters g'"
    by blast
  show ?thesis unfolding run_turn_unfold w using g' t by simp
qed

lemma game_setup_table:
  assumes "set (sak g) \<subseteq> dom letters"
  shows "\<exists>g'. game_setup g = Inr g' \<and> table_letters g' \<and>
           total_letters g' = length (sak g) \<and> printed g' = printed g"
proof -
  obtain h1 b1 where g1: "getletters 7 (sak g) = Inr (h1, b1)"
    using getletters_total by blast
  obtain h2 b2 where g2: "getletters 7 b1 = Inr (h2, b2)"
    using getletters_total by blast
  have s1: "set h1 \<subseteq> dom letters" "set b1 \<subseteq> dom letters"
    using getletters_sets(1,2) [OF g1] assms by auto
  have s2: "set h2 \<subseteq> dom letters" "set b2 \<subseteq> dom letters"
    using getletters_sets(1,2) [OF g2] s1 by auto
  have "length b2 + length h2 + length h1 = length (sak g)"
    using getletters_sets(3) [OF g1] getletters_sets(3) [OF g2] by simp
  then show ?thesis
    unfolding game_setup_def using s1 s2
    by (simp add: g1 g2 table_letters_def total_letters_def)
qed

lemma first_setup_facts:
  assumes "game_setup (settings st (new_game rnd ws)) = Inr g"
  shows "table_letters g" and "total_letters g = 102" and "printed g = []"
proof -
  let ?g0 = "settings st (new_game rnd ws)"
  have sak0: "sak ?g0 = randomize_sak rnd" and pr0: "printed ?g0 = []"
    by (simp_all add: settings_def new_game_def)
  have "set (sak ?g0) \<subseteq> dom letters" unfolding sak0 by (rule randomize_sak_set)
  from game_setup_table [OF this] assms
  have "table_letters g \<and> total_letters g = length (sak ?g0) \<and> printed g = printed ?g0"
    by simp
  then show "table_letters g" and "total_letters g = 102" and "printed g = []"
    unfolding sak0 pr0 randomize_sak_length by simp_all
qed

lemma run_init_fields [simp]:
  "total_letters (run_init g) = total_letters g" "table_letters (run_init g) = table_letters g"
  "printed (run_init g) = printed g" "human (run_init g) = human g" "comp (run_init g) = comp g"
  "sak (run_init g) = sak g"
  by (simp_all add: run_init_def total_letters_def table_letters_def)

lemma reachable_table: "reachable g \<Longrightarrow> table_letters g"
proof (induction rule: reachable.induct)
  case (reach_setup st rnd ws g)
  then show ?case using first_setup_facts(1) by simp
next
  case (reach_turn g typed rnd g')
  from run_turn_table [OF reach_turn.IH, of typed rnd] reach_turn.hyps(2)
  show ?case by simp
next
  case (reach_again g typed rnd g' st g'')
  from run_turn_table [OF reach_again.IH, of typed rnd] reach_again.hyps(2)
  have "table_letters g'" by simp
  then have "set (sak (settings st g')) \<subseteq> dom letters"
    by (simp add: table_letters_def settings_def)
  from game_setup_table [OF this] reach_again.hyps(3)
  show ?case by simp
qed

lemma first_match_reachable: "first_match g \<Longrightarrow> reachable g"
  by (induction rule: first_match.induct) (auto intro: reachable.intros)

lemma first_match_count:
  "first_match g \<Longrightarrow> total_letters g + played_letters (printed g) = 102"
proof (induction rule: first_match.induct)
  case (first_setup st rnd ws g)
  then show ?case using first_setup_facts(2,3) by simp
next
  case (first_turn g typed rnd g')
  from run_turn_count [OF first_turn.hyps(2)] first_turn.IH
  show ?case by simp
qed

lemma first_round_first_match: "first_match (first_round st ws)"
  using first_match.first_setup [OF first_round_setup, of st ws] by (simp add: first_round_init)

lemma first_round_reachable: "reachable (first_round st ws)"
  by (rule first_match_reachable) (rule first_round_first_match)

lemmas eval_turn =
  run_turn_def apply_move_def play_word_def change_letters_def teach_advice_def
  active_hand_def active_score_def set_hand_def add_score_def print_def Let_def
  getletters_eq putbackletters_def shuffle_no_swap list_remove_def
  first_round_def table_order replicate_numeral total_letters_def
  QUIT_def CHANGE_def PASS_def PSYCHO_def FA_def letters_def letters_items_def

lemma first_round_total: "total_letters (first_round st ws) = 102"
  by (simp add: eval_turn)

lemma psycho_turn:
  "map_sum id after_turn (run_turn PSYCHO rnd (first_round st {PSYCHO})) =
     Inr ((first_round st {PSYCHO})
       \<lparr>sak := take 84 (sak (first_round st {PSYCHO})),
        human := \<lparr>hand = [Gr_OMEGA, Gr_OMEGA, Gr_PHI, Gr_TAU, Gr_TAU, Gr_TAU, Gr_TAU], score = 23\<rparr>,
        turn := 1,
        printed := [Status Human [Gr_OMEGA, Gr_OMEGA, Gr_OMEGA, Gr_PSI, Gr_CHI, Gr_PHI, Gr_UPSILON] 0,
                    Played Human PSYCHO 23]\<rparr>)"
  by (simp add: eval_turn)

lemma apply_move_delta:
  assumes "apply_move p word rnd g = Inr g'"
  shows "total_letters g' +
           (if word \<noteq> CHANGE \<and> word \<in> wordset g \<and>
               list_all (\<lambda>l. count_list word l \<le> count_list (active_hand p g) l) word
            then length word else 0) = total_letters g"
proof (cases "word = CHANGE")
  case True
  then have "change_letters p rnd g = Inr g'" using assms by (simp add: apply_move_def)
  then show ?thesis using change_letters_count(1) True by simp
next
  case nc: False
  show ?thesis
  proof (cases "word \<in> wordset g \<and>
            list_all (\<lambda>l. count_list word l \<le> count_list (active_hand p g) l) word")
    case True
    then have "apply_move p word rnd g = play_word p word g"
      unfolding apply_move_def using nc by (simp only: if_False if_True simp_thms)
    then have "play_word p word g = Inr g'" using assms by simp
    then show ?thesis using play_word_count(1) True nc by simp
  next
    case nw: False
    have rest: "apply_move p word rnd g =
        (if word = PASS then Inr (print (Passed p) g)
         else if p = Human \<and> game_strategy g = St_TEACH then teach_advice word g
         else Inr (print InvalidWord g))"
      unfolding apply_move_def using nc nw by (simp only: if_False)
    have "total_letters g' = total_letters g"
    proof (cases "word \<noteq> PASS \<and> p = Human \<and> game_strategy g = St_TEACH")
      case True
      then have "teach_advice word g = Inr g'" using assms rest by simp
      from teach_advice_Inr [OF this] show ?thesis by auto
    next
      case False
      then have "g' = print (Passed p) g \<or> g' = print InvalidWord g"
        using assms rest by (auto split: if_splits)
      then show ?thesis by auto
    qed
    then show ?thesis using nw by auto
  qed
qed

text \<open>
  Claim C5, amended.  In the first match of a game, at the head of every round of the
  loop and after every completed round (the last one included), the letters in the bag,
  the letters in the two hands and the letters of the words played so far add up to the
  102 letters of the table; a round never fails.  The letters in the bag and in the hands
  alone are 102 after the distribution of the hands; an exchange, a pass, an invalid word
  or an advice leaves their number as it is, and a played word lowers it by the length of
  the word, since the letters laid down go neither to the bag nor to a hand.
\<close>

theorem first_match_letters:
  assumes "first_match g"
  shows "total_letters g + played_letters (printed g) = 102 \<and>
         (\<forall>typed rnd. \<exists>r. run_turn typed rnd g = Inr r \<and>
            total_letters (after_turn r) + played_letters (printed (after_turn r)) = 102) \<and>
         (\<forall>p word rnd g'. apply_move p word rnd g = Inr g' \<longrightarrow>
            total_letters g' +
              (if word \<noteq> CHANGE \<and> word \<in> wordset g \<and>
                  list_all (\<lambda>l. count_list word l \<le> count_list (active_hand p g) l) word
               then length word else 0) = total_letters g)"
proof -
  have inv: "total_letters g + played_letters (printed g) = 102"
    using assms by (rule first_match_count)
  have t: "table_letters g"
    using assms by (intro reachable_table first_match_reachable)
  have "\<exists>r. run_turn typed rnd g = Inr r \<and>
            total_letters (after_turn r) + played_letters (printed (after_turn r)) = 102"
    for typed rnd
  proof -
    obtain r where r: "run_turn typed rnd g = Inr r"
      using run_turn_table [OF t] by blast
    then show ?thesis using run_turn_count [OF r] inv by simp
  qed
  then show ?thesis using inv apply_move_delta by blast
qed

theorem first_match_letters_witness:
  "first_match (first_round St_SMART {PSYCHO}) \<and>
   total_letters (first_round St_SMART {PSYCHO}) = 102 \<and>
   total_letters (first_round St_SMART {PSYCHO}) +
     played_letters (printed (first_round St_SMART {PSYCHO})) = 102 \<and>
   (\<exists>r. run_turn PSYCHO no_swap (first_round St_SMART {PSYCHO}) = Inr r \<and>
      total_letters (after_turn r) + played_letters (printed (after_turn r)) = 102)"
  using first_match_letters [OF first_round_first_match, of St_SMART "{PSYCHO}"]
    first_round_first_match [of St_SMART "{PSYCHO}"] first_round_total [of St_SMART "{PSYCHO}"]
  by blast

text \<open>
  Claim C5 as stated fails as soon as a word is played.  In the first round of the game
  whose bag kept the table order, the human holds omega (three times), psi, chi, phi and
  upsilon and plays psi-upsilon-chi-omega: four letters leave the hand, four are drawn,
  and bag and hands hold 98 letters instead of 102.
\<close>

theorem letters_total_counterexample:
  "first_match (first_round St_SMART {PSYCHO}) \<and>
   total_letters (first_round St_SMART {PSYCHO}) = 102 \<and>
   map_sum id (total_letters \<circ> after_turn)
     (run_turn PSYCHO no_swap (first_round St_SMART {PSYCHO})) = Inr 98"
proof -
  have "map_sum id (total_letters \<circ> after_turn)
      (run_turn PSYCHO no_swap (first_round St_SMART {PSYCHO})) =
    map_sum id total_letters (map_sum id after_turn
      (run_turn PSYCHO no_swap (first_round St_SMART {PSYCHO})))"
    by (simp add: sum.map_comp)
  also have "\<dots> = Inr 98"
    unfolding psycho_turn by (simp add: eval_turn)
  finally show ?thesis
    using first_round_first_match first_round_total by simp
qed


lemma run_turn_move:
  assumes "(case active g of Human \<Rightarrow> Inr typed | Computer \<Rightarrow> play (comp g) (wordset g))
             = Inr word"
    and "word \<noteq> QUIT"
    and "apply_move (active g) word rnd
           (print (Status (active g) (active_hand (active g) g) (active_score (active g) g)) g)
           = Inr g'"
  shows "\<exists>r. run_turn typed rnd g = Inr r \<and>
           after_turn r = (if sak g' = [] then print NoMoreLetters g'
                           else g'\<lparr>turn := turn g' + 1\<rparr>)"
  unfolding run_turn_unfold using assms by simp

text \<open>
  Claim C9.  When the player whose turn it is holds seven letters and submits the
  exchange token \<open>"P"\<close>, the round does not fail; after it the player holds exactly seven
  letters, the bag holds as many letters as before (bag and hand together hold the same
  letters as before), the player's score is unchanged, and the other player is unchanged
  altogether.
\<close>

theorem exchange_turn:
  assumes "(case active g of Human \<Rightarrow> Inr typed | Computer \<Rightarrow> play (comp g) (wordset g))
             = Inr CHANGE"
    and "length (active_hand (active g) g) = 7"
  shows "\<exists>r. run_turn typed rnd g = Inr r \<and>
           length (active_hand (active g) (after_turn r)) = 7 \<and>
           length (sak (after_turn r)) = length (sak g) \<and>
           mset (sak (after_turn r)) + mset (active_hand (active g) (after_turn r)) =
             mset (sak g) + mset (active_hand (active g) g) \<and>
           active_score (active g) (after_turn r) = active_score (active g) g \<and>
           (active g = Human \<longrightarrow> comp (after_turn r) = comp g) \<and>
           (active g = Computer \<longrightarrow> human (after_turn r) = human g)"
proof -
  let ?p = "active g"
  let ?g1 = "print (Status ?p (active_hand ?p g) (active_score ?p g)) g"
  let ?bag = "putbackletters rnd (active_hand ?p g) (sak g)"
  obtain h bag' where gl: "getletters 7 ?bag = Inr (h, bag')"
    using getletters_total by blast
  have b: "?bag = bag' @ rev h" and lh: "length h = min (nat 7) (length ?bag)"
    using getletters_Inr [OF gl] by simp_all
  have h7: "length h = 7" using lh assms(2) by simp
  have "length ?bag = length bag' + length h" by (subst b) simp
  then have lb: "length bag' = length (sak g)" using h7 assms(2) by simp
  have "mset ?bag = mset bag' + mset h" by (subst b) simp
  then have ms: "mset bag' + mset h = mset (sak g) + mset (active_hand ?p g)" by simp
  let ?g' = "print LettersChanged (set_hand ?p h (?g1\<lparr>sak := bag'\<rparr>))"
  have mv: "apply_move ?p CHANGE rnd ?g1 = Inr ?g'"
    by (simp add: apply_move_def change_letters_def gl)
  have "CHANGE \<noteq> QUIT" by (simp add: CHANGE_def QUIT_def)
  from run_turn_move [OF assms(1) this mv] obtain r where
    r: "run_turn typed rnd g = Inr r"
    "after_turn r = (if sak ?g' = [] then print NoMoreLetters ?g'
                           else ?g'\<lparr>turn := turn ?g' + 1\<rparr>)"
    by blast
  have "active_hand ?p (after_turn r) = h" "sak (after_turn r) = bag'"
    "active_score ?p (after_turn r) = active_score ?p g"
    "?p = Human \<longrightarrow> comp (after_turn r) = comp g"
    "?p = Computer \<longrightarrow> human (after_turn r) = human g"
    unfolding r(2)
    by (cases ?p; simp add: set_hand_def print_def active_hand_def active_score_def)+
  then show ?thesis using r(1) h7 lb ms by auto
qed

theorem exchange_turn_witness:
  "(case active (first_round St_SMART {PSYCHO}) of
      Human \<Rightarrow> Inr CHANGE
    | Computer \<Rightarrow> play (comp (first_round St_SMART {PSYCHO}))
                    (wordset (first_round St_SMART {PSYCHO}))) = Inr CHANGE \<and>
   active (first_round St_SMART {PSYCHO}) = Human \<and>
   length (active_hand (active (first_round St_SMART {PSYCHO})) (first_round St_SMART {PSYCHO})) = 7 \<and>
   (\<exists>r. run_turn CHANGE no_swap (first_round St_SMART {PSYCHO}) = Inr r \<and>
      length (hand (human (after_turn r))) = 7 \<and>
      length (sak (after_turn r)) = 88 \<and>
      score (human (after_turn r)) = 0 \<and>
      comp (after_turn r) = comp (first_round St_SMART {PSYCHO}))"
proof -
  let ?g = "first_round St_SMART {PSYCHO}"
  have a: "active ?g = Human" by (simp add: active_def first_round_def)
  have h: "(case active ?g of Human \<Rightarrow> Inr CHANGE
            | Computer \<Rightarrow> play (comp ?g) (wordset ?g)) = Inr CHANGE"
    "length (active_hand (active ?g) ?g) = 7"
    unfolding a by (simp_all add: active_hand_def first_round_def)
  have v: "length (sak ?g) = 88" "score (human ?g) = 0"
    by (simp_all add: first_round_sak) (simp add: first_round_def)
  from exchange_turn [OF h, of no_swap] obtain r where
    r: "run_turn CHANGE no_swap ?g = Inr r"
    "length (active_hand (active ?g) (after_turn r)) = 7"
    "length (sak (after_turn r)) = length (sak ?g)"
    "active_score (active ?g) (after_turn r) = active_score (active ?g) ?g"
    "active ?g = Human \<longrightarrow> comp (after_turn r) = comp ?g"
    by blast
  have "length (hand (human (after_turn r))) = 7" "length (sak (after_turn r)) = 88"
    "score (human (after_turn r)) = 0" "comp (after_turn r) = comp ?g"
    using r(2-5) v unfolding a by (simp_all add: active_hand_def active_score_def)
  then show ?thesis using h a r(1) by blast
qed

text \<open>
  Claim C10.  In every reachable state of the game every letter of the bag and of either
  hand is a key of the letter table.  So no score lookup fails: every candidate
  permutation of the computer's hand has a score, every strategy returns a word, the
  advisory search returns a word, every word that passes the test against the hand of a
  player has a score, and a round of the turn loop never raises, whatever the human
  enters and however the bag is shuffled; the hands after the round are again made of
  table letters.
\<close>

theorem reachable_letters_in_table:
  assumes "reachable g"
  shows "set (hand (human g)) \<subseteq> dom letters \<and> set (hand (comp g)) \<subseteq> dom letters \<and>
         set (sak g) \<subseteq> dom letters \<and>
         (\<forall>w\<in>set (candidates (hand (comp g))). \<exists>s. word_score w = Inr s) \<and>
         (\<exists>w. play (comp g) (wordset g) = Inr w) \<and>
         (\<exists>w. smart_teach (comp g) (wordset g) = Inr w) \<and>
         (\<forall>p word. list_all (\<lambda>l. count_list word l \<le> count_list (active_hand p g) l) word \<longrightarrow>
            (\<exists>s. word_score word = Inr s)) \<and>
         (\<forall>typed rnd. \<exists>r. run_turn typed rnd g = Inr r \<and>
            set (hand (human (after_turn r))) \<subseteq> dom letters \<and>
            set (hand (comp (after_turn r))) \<subseteq> dom letters)"
proof -
  have t: "table_letters g" using assms by (rule reachable_table)
  then have h: "set (hand (human g)) \<subseteq> dom letters" "set (hand (comp g)) \<subseteq> dom letters"
    "set (sak g) \<subseteq> dom letters"
    by (simp_all add: table_letters_def)
  have c: "\<forall>w\<in>set (candidates (hand (comp g))). \<exists>s. word_score w = Inr s"
    using candidates_set h(2) word_score_points by blast
  have p: "\<exists>w. play (comp g) (wordset g) = Inr w" using h(2) by (rule play_total)
  have s: "\<exists>w. smart_teach (comp g) (wordset g) = Inr w" using h(2) by (rule smart_teach_total)
  have v: "\<forall>p word. list_all (\<lambda>l. count_list word l \<le> count_list (active_hand p g) l) word \<longrightarrow>
            (\<exists>s. word_score word = Inr s)"
    using play_word_table(2) [OF t] by blast
  have r: "\<exists>r. run_turn typed rnd g = Inr r \<and>
            set (hand (human (after_turn r))) \<subseteq> dom letters \<and>
            set (hand (comp (after_turn r))) \<subseteq> dom letters" for typed rnd
    using run_turn_table [OF t, of typed rnd] by (auto simp: table_letters_def)
  from h c p s v r show ?thesis by blast
qed

theorem reachable_letters_in_table_witness:
  "reachable (first_round St_SMART {PSYCHO}) \<and>
   set (hand (human (first_round St_SMART {PSYCHO}))) \<subseteq> dom letters \<and>
   set (hand (comp (first_round St_SMART {PSYCHO}))) \<subseteq> dom letters \<and>
   word_score PSYCHO = Inr 23 \<and>
   (\<exists>r. run_turn PSYCHO no_swap (first_round St_SMART {PSYCHO}) = Inr r \<and>
      set (hand (human (after_turn r))) \<subseteq> dom letters)"
proof -
  have "word_score PSYCHO = Inr 23" by (simp add: PSYCHO_def letters_def letters_items_def)
  then show ?thesis
    using reachable_letters_in_table [OF first_round_reachable, of St_SMART "{PSYCHO}"]
      first_round_reachable [of St_SMART "{PSYCHO}"]
    by blast
qed





end
